theory Spec2Isabelle
  imports Complex_Main "HOL-Library.Word" "HOL-Library.AList" "HOL-Library.Multiset"
begin

chapter \<open>The model\<close>

section \<open>Game object index (tab-maps.js, collectGameObjects)\<close>

text \<open>
  A row of GameObjects.db2 as the code reads it: \<open>DisplayID\<close>, \<open>OwnerID\<close> and \<open>Pos\<close> are
  columns of the table; \<open>FileDataID\<close> is the property the code adds to the row object once
  the display identifier has been resolved (\<open>None\<close> is JavaScript's \<open>undefined\<close>).
  \<open>RowID\<close> is the key of the row in \<open>getAllRows()\<close>.
\<close>

record game_object =
  RowID :: nat
  DisplayID :: nat
  OwnerID :: nat
  Pos :: "real \<times> real"
  FileDataID :: "nat option"

text \<open>
  GameObjectDisplayInfo.db2: \<open>idTable.getRow(id)\<close> returns the row or \<open>null\<close>; only the
  column \<open>FileDataID\<close> of that row is read, so the table is a partial map from display
  identifiers to file data identifiers.
\<close>

type_synonym id_table = "nat \<rightharpoonup> nat"

text \<open>
  The cache \<open>gameObjectsDB2\<close>: a JavaScript \<open>Map\<close> from owner (map) identifier to a \<open>Set\<close>
  of row objects. Every row object is visited once, so \<open>Set.add\<close> appends; the set keeps
  insertion order and is a list here.
\<close>

type_synonym object_index = "nat \<rightharpoonup> game_object list"

definition index_row :: "id_table \<Rightarrow> object_index \<Rightarrow> game_object \<Rightarrow> object_index" where
  "index_row idTable db row =
     (case idTable (DisplayID row) of
        None \<Rightarrow> db
      | Some fid \<Rightarrow>
          (let row' = row\<lparr>FileDataID := Some fid\<rparr> in
           (case db (OwnerID row') of
              None \<Rightarrow> db(OwnerID row' \<mapsto> [row'])
            | Some m \<Rightarrow> db(OwnerID row' \<mapsto> m @ [row']))))"

definition build_index :: "game_object list \<Rightarrow> id_table \<Rightarrow> object_index" where
  "build_index objTable idTable = foldl (index_row idTable) Map.empty objTable"

text \<open>
  \<open>collectGameObjects(mapID, filter)\<close> with the module variable \<open>gameObjectsDB2\<close> passed in
  and returned (\<open>None\<close> is its initial \<open>null\<close>). The two tables are read only when the
  cache is empty. \<open>filter\<close> is \<open>None\<close> when the caller passes no predicate (\<open>undefined\<close>).
\<close>

definition collectGameObjects ::
  "object_index option \<Rightarrow> game_object list \<Rightarrow> id_table \<Rightarrow> nat \<Rightarrow> (game_object \<Rightarrow> bool) option
     \<Rightarrow> game_object list \<times> object_index option" where
  "collectGameObjects gameObjectsDB2 objTable idTable mapID flt =
     (let db = (case gameObjectsDB2 of
                  None \<Rightarrow> build_index objTable idTable
                | Some db \<Rightarrow> db);
          result = (case db mapID of
                      None \<Rightarrow> []
                    | Some mapObjects \<Rightarrow>
                        filter (\<lambda>obj. case flt of None \<Rightarrow> False | Some f \<Rightarrow> f obj) mapObjects)
      in (result, Some db))"

text \<open>What it means for an indexed object to be resolved against the display table.\<close>

definition resolved :: "id_table \<Rightarrow> game_object \<Rightarrow> bool" where
  "resolved idTable obj =
     (case idTable (DisplayID obj) of None \<Rightarrow> False | Some fid \<Rightarrow> FileDataID obj = Some fid)"

definition index_resolved :: "id_table \<Rightarrow> object_index \<Rightarrow> bool" where
  "index_resolved idTable db = (\<forall>k ms. db k = Some ms \<longrightarrow> list_all (resolved idTable) ms)"

section \<open>JavaScript numbers\<close>

text \<open>
  A JavaScript number is an IEEE 754 binary64 value. A finite value is carried as the real
  number it denotes, next to the two infinities and \<open>NaN\<close>. The model has one zero: the
  sign of a zero is not kept. It shows in the programs below only through a division by
  zero, and the one divisor of the code that can be zero is \<open>maxHeight - minHeight\<close> in
  \<open>write\<close>, where either sign of the quotient makes \<open>writeUInt16LE\<close> throw the same error.
\<close>

datatype jsnum = NaN | NegInf | Fin real | PosInf

text \<open>
  Rounding to the nearest double, ties to the even significand. \<open>binade x\<close> is the exponent
  of the binade of \<open>x\<close>, no smaller than that of the subnormal numbers; \<open>ulp x\<close> is the
  distance between neighbouring doubles there (53 significant bits); \<open>nearest x\<close> is the
  multiple of \<open>ulp x\<close> closest to \<open>x\<close>; and \<open>to_double x\<close> is the result of an operation
  whose exact value is \<open>x\<close>, an infinity when the rounded value is beyond the largest
  double. \<open>is_double x\<close> says that \<open>x\<close> is the value of a finite double.
\<close>

definition binade :: "real \<Rightarrow> int" where
  "binade x = (if x = 0 then - 1022 else max \<lfloor>log 2 \<bar>x\<bar>\<rfloor> (- 1022))"

definition ulp :: "real \<Rightarrow> real" where
  "ulp x = 2 powi (binade x - 52)"

definition round_half_even :: "real \<Rightarrow> int" where
  "round_half_even t =
     (let f = \<lfloor>t\<rfloor> in
      if t - of_int f < 1 / 2 then f
      else if t - of_int f > 1 / 2 then f + 1
      else if even f then f else f + 1)"

definition nearest :: "real \<Rightarrow> real" where
  "nearest x = of_int (round_half_even (x / ulp x)) * ulp x"

definition to_double :: "real \<Rightarrow> jsnum" where
  "to_double x =
     (let y = nearest x in
      if y \<ge> 2 ^ 1024 then PosInf else if y \<le> - (2 ^ 1024) then NegInf else Fin y)"

definition is_double :: "real \<Rightarrow> bool" where
  "is_double x \<longleftrightarrow> to_double x = Fin x"

text \<open>\<open>a < b\<close>: false as soon as one side is \<open>NaN\<close>. \<open>a > b\<close> is \<open>b < a\<close>.\<close>

fun js_lt :: "jsnum \<Rightarrow> jsnum \<Rightarrow> bool" where
  "js_lt NaN _ = False"
| "js_lt _ NaN = False"
| "js_lt _ NegInf = False"
| "js_lt NegInf _ = True"
| "js_lt PosInf _ = False"
| "js_lt (Fin a) PosInf = True"
| "js_lt (Fin a) (Fin b) = (a < b)"

text \<open>
  The arithmetic operators: the exact result of finite operands is rounded, the other cases
  follow the IEEE rules for infinities and \<open>NaN\<close>.
\<close>

fun js_add :: "jsnum \<Rightarrow> jsnum \<Rightarrow> jsnum" where
  "js_add NaN _ = NaN"
| "js_add _ NaN = NaN"
| "js_add (Fin a) (Fin b) = to_double (a + b)"
| "js_add PosInf NegInf = NaN"
| "js_add NegInf PosInf = NaN"
| "js_add PosInf _ = PosInf"
| "js_add NegInf _ = NegInf"
| "js_add (Fin a) b = b"

fun js_sub :: "jsnum \<Rightarrow> jsnum \<Rightarrow> jsnum" where
  "js_sub NaN _ = NaN"
| "js_sub _ NaN = NaN"
| "js_sub (Fin a) (Fin b) = to_double (a - b)"
| "js_sub PosInf PosInf = NaN"
| "js_sub NegInf NegInf = NaN"
| "js_sub PosInf _ = PosInf"
| "js_sub NegInf _ = NegInf"
| "js_sub (Fin a) PosInf = NegInf"
| "js_sub (Fin a) NegInf = PosInf"

fun js_mul :: "jsnum \<Rightarrow> jsnum \<Rightarrow> jsnum" where
  "js_mul NaN _ = NaN"
| "js_mul _ NaN = NaN"
| "js_mul (Fin a) (Fin b) = to_double (a * b)"
| "js_mul (Fin a) PosInf = (if a = 0 then NaN else if a > 0 then PosInf else NegInf)"
| "js_mul (Fin a) NegInf = (if a = 0 then NaN else if a > 0 then NegInf else PosInf)"
| "js_mul PosInf (Fin b) = (if b = 0 then NaN else if b > 0 then PosInf else NegInf)"
| "js_mul NegInf (Fin b) = (if b = 0 then NaN else if b > 0 then NegInf else PosInf)"
| "js_mul PosInf PosInf = PosInf"
| "js_mul NegInf NegInf = PosInf"
| "js_mul PosInf NegInf = NegInf"
| "js_mul NegInf PosInf = NegInf"

text \<open>
  Division. A finite non-zero number divided by zero is the infinity of the sign of the
  dividend (the zero taken as positive, see above), and \<open>0 / 0\<close> is \<open>NaN\<close>.
\<close>

fun js_div :: "jsnum \<Rightarrow> jsnum \<Rightarrow> jsnum" where
  "js_div NaN _ = NaN"
| "js_div _ NaN = NaN"
| "js_div (Fin a) (Fin b) =
     (if b = 0 then (if a = 0 then NaN else if a > 0 then PosInf else NegInf)
      else to_double (a / b))"
| "js_div (Fin a) _ = Fin 0"
| "js_div PosInf (Fin b) = (if b \<ge> 0 then PosInf else NegInf)"
| "js_div NegInf (Fin b) = (if b \<ge> 0 then NegInf else PosInf)"
| "js_div _ _ = NaN"

text \<open>
  \<open>Math.sqrt\<close>, taken as the correctly rounded square root (what the engines compute),
  and \<open>Math.round\<close>: the nearest integer, a tie going up (\<open>floor (x + 0.5)\<close>, exactly).
\<close>

fun math_sqrt :: "jsnum \<Rightarrow> jsnum" where
  "math_sqrt (Fin a) = (if a < 0 then NaN else to_double (sqrt a))"
| "math_sqrt PosInf = PosInf"
| "math_sqrt _ = NaN"

fun math_round :: "jsnum \<Rightarrow> jsnum" where
  "math_round (Fin x) = Fin (of_int \<lfloor>x + 1 / 2\<rfloor>)"
| "math_round x = x"

text \<open>For the proofs: a value that is not below zero (\<open>NaN\<close> included).\<close>

fun not_negative :: "jsnum \<Rightarrow> bool" where
  "not_negative NegInf = False"
| "not_negative (Fin a) = (0 \<le> a)"
| "not_negative _ = True"

section \<open>FaceCuller.cullBackFaces\<close>

text \<open>
  \<open>triangleIndices\<close> is a flat list of vertex indices (natural numbers), read three at a
  time; \<open>vertices\<close> is the flat coordinate buffer \<open>[x, y, z, x, y, z, ...]\<close>, a list of
  JavaScript numbers. Every operation on coordinates is the operation on doubles, in the
  order in which the source writes it.

  The loop \<open>for (i = 0; i < length; i += 3)\<close> visits the consecutive triples of the list.
  \<open>triples_of\<close> cuts the list into them and \<open>flat\<close> writes a list of triples back as
  indices. When the length is not a multiple of three the source reads \<open>undefined\<close> past
  the end of the array; such index lists are outside this model, and \<open>triples_of\<close> (and
  with it \<open>cullBackFaces\<close>) returns \<open>None\<close> for them.
\<close>

type_synonym tri = "nat \<times> nat \<times> nat"
type_synonym vec3 = "jsnum \<times> jsnum \<times> jsnum"

fun flat :: "tri list \<Rightarrow> nat list" where
  "flat [] = []"
| "flat ((i0, i1, i2) # ts) = i0 # i1 # i2 # flat ts"

fun triples_of :: "nat list \<Rightarrow> tri list option" where
  "triples_of [] = Some []"
| "triples_of (i0 # i1 # i2 # rest) = map_option ((#) (i0, i1, i2)) (triples_of rest)"
| "triples_of _ = None"

text \<open>The test of line 32: one of the three vertices lies outside the buffer.\<close>

definition malformed :: "jsnum list \<Rightarrow> tri \<Rightarrow> bool" where
  "malformed vertices t =
     (case t of (i0, i1, i2) \<Rightarrow>
        i0 * 3 + 2 \<ge> length vertices \<or> i1 * 3 + 2 \<ge> length vertices \<or> i2 * 3 + 2 \<ge> length vertices)"

text \<open>
  The key of a triangle: its three indices sorted numerically. The source joins them with
  \<open>'-'\<close> into a string; the decimal rendering of three naturals joined so determines the
  three numbers, so the sorted list itself is the key here.
\<close>

definition tri_key :: "tri \<Rightarrow> nat list" where
  "tri_key t = (case t of (i0, i1, i2) \<Rightarrow> sort [i0, i1, i2])"

text \<open>Vertex positions, the two edges from vertex 0, and their cross product.\<close>

definition vertex :: "jsnum list \<Rightarrow> nat \<Rightarrow> vec3" where
  "vertex vertices i = (vertices ! (i * 3), vertices ! (i * 3 + 1), vertices ! (i * 3 + 2))"

definition edge :: "vec3 \<Rightarrow> vec3 \<Rightarrow> vec3" where
  "edge v w =
     (case (v, w) of ((v0, v1, v2), (w0, w1, w2)) \<Rightarrow> (js_sub v0 w0, js_sub v1 w1, js_sub v2 w2))"

definition cross :: "vec3 \<Rightarrow> vec3 \<Rightarrow> vec3" where
  "cross e f =
     (case (e, f) of ((e0, e1, e2), (f0, f1, f2)) \<Rightarrow>
        (js_sub (js_mul e1 f2) (js_mul e2 f1),
         js_sub (js_mul e2 f0) (js_mul e0 f2),
         js_sub (js_mul e0 f1) (js_mul e1 f0)))"

definition face_normal :: "jsnum list \<Rightarrow> tri \<Rightarrow> vec3" where
  "face_normal vertices t =
     (case t of (i0, i1, i2) \<Rightarrow>
        (let v0 = vertex vertices i0; v1 = vertex vertices i1; v2 = vertex vertices i2;
             edge1 = edge v1 v0; edge2 = edge v2 v0
         in cross edge1 edge2))"

definition normalLength :: "vec3 \<Rightarrow> jsnum" where
  "normalLength n =
     (case n of (n0, n1, n2) \<Rightarrow>
        math_sqrt (js_add (js_add (js_mul n0 n0) (js_mul n1 n1)) (js_mul n2 n2)))"

text \<open>
  The two literals of the function denote the doubles nearest to them. A well-formed
  triangle is skipped when its normal is shorter than \<open>1e-6\<close>.
\<close>

definition lit_1e_6 :: jsnum where
  "lit_1e_6 = to_double (1 / 1000000)"

definition lit_minus_0_8 :: jsnum where
  "lit_minus_0_8 = to_double (- (8 / 10))"

definition degenerate :: "jsnum list \<Rightarrow> tri \<Rightarrow> bool" where
  "degenerate vertices t = js_lt (normalLength (face_normal vertices t)) lit_1e_6"

definition normalize :: "vec3 \<Rightarrow> vec3" where
  "normalize n =
     (case n of (n0, n1, n2) \<Rightarrow>
        (js_div n0 (normalLength n), js_div n1 (normalLength n), js_div n2 (normalLength n)))"

definition unit_normal :: "jsnum list \<Rightarrow> tri \<Rightarrow> vec3" where
  "unit_normal vertices t = normalize (face_normal vertices t)"

definition dotProduct :: "vec3 \<Rightarrow> vec3 \<Rightarrow> jsnum" where
  "dotProduct a b =
     (case (a, b) of ((a0, a1, a2), (b0, b1, b2)) \<Rightarrow>
        js_add (js_add (js_mul a0 b0) (js_mul a1 b1)) (js_mul a2 b2))"

definition score :: "vec3 \<Rightarrow> jsnum" where
  "score n = (case n of (n0, n1, n2) \<Rightarrow> js_add (js_add (js_mul n2 (Fin 4)) (js_mul n1 (Fin 2))) n0)"

text \<open>
  The loop state. \<open>culledIndices\<close> receives three indices at a time
  (\<open>culledIndices.push(i0, i1, i2)\<close>) and is kept as the list of pushed triples.
  \<open>triangleMap\<close> is a JavaScript \<open>Map\<close>: it iterates in the order the keys were first
  inserted, and \<open>set\<close> on a key it holds replaces the value in place. That is an
  association list with \<open>AList.update\<close>; \<open>has\<close>/\<open>get\<close> are \<open>map_of\<close>.
\<close>

record candidate =
  indices :: tri
  normal :: vec3

record cull_state =
  culledIndices :: "tri list"
  triangleMap :: "(nat list \<times> candidate) list"

text \<open>The body of the loop, for the triple \<open>t = (i0, i1, i2)\<close>.\<close>

definition cull_step :: "jsnum list \<Rightarrow> cull_state \<Rightarrow> tri \<Rightarrow> cull_state" where
  "cull_step vertices st t =
     (if malformed vertices t then st\<lparr>culledIndices := culledIndices st @ [t]\<rparr>
      else
        let triangleKey = tri_key t;
            n = face_normal vertices t
        in if js_lt (normalLength n) lit_1e_6 then st
           else
             let n = normalize n in
             (case map_of (triangleMap st) triangleKey of
                Some existingTriangle \<Rightarrow>
                  if js_lt (dotProduct n (normal existingTriangle)) lit_minus_0_8 then
                    (let currentScore = score n;
                         existingScore = score (normal existingTriangle)
                     in if js_lt existingScore currentScore
                        then st\<lparr>triangleMap :=
                               AList.update triangleKey \<lparr>indices = t, normal = n\<rparr> (triangleMap st)\<rparr>
                        else st)
                  else st\<lparr>culledIndices := culledIndices st @ [t]\<rparr>
              | None \<Rightarrow>
                  st\<lparr>triangleMap :=
                       AList.update triangleKey \<lparr>indices = t, normal = n\<rparr> (triangleMap st)\<rparr>))"

text \<open>After the scan the candidates left in the map are appended in map order.\<close>

definition cull_result :: "cull_state \<Rightarrow> tri list" where
  "cull_result st = culledIndices st @ map (\<lambda>(k, triangle). indices triangle) (triangleMap st)"

definition cull_triangles :: "jsnum list \<Rightarrow> tri list \<Rightarrow> tri list" where
  "cull_triangles vertices ts =
     cull_result (foldl (cull_step vertices) \<lparr>culledIndices = [], triangleMap = []\<rparr> ts)"

text \<open>
  The function itself. An empty index list is returned as it is (the guard of line 21;
  the arguments are arrays here, never \<open>null\<close>).
\<close>

definition cullBackFaces :: "nat list \<Rightarrow> jsnum list \<Rightarrow> nat list option" where
  "cullBackFaces triangleIndices vertices =
     (if triangleIndices = [] then Some triangleIndices
      else map_option (\<lambda>ts. flat (cull_triangles vertices ts)) (triples_of triangleIndices))"

text \<open>Invariants of the triangle map used in the proofs below.\<close>

definition map_wellformed :: "jsnum list \<Rightarrow> cull_state \<Rightarrow> bool" where
  "map_wellformed vertices st =
     list_all (\<lambda>(k, triangle). \<not> malformed vertices (indices triangle)) (triangleMap st)"

definition map_keyed :: "cull_state \<Rightarrow> bool" where
  "map_keyed st =
     (distinct (map fst (triangleMap st))
      \<and> list_all (\<lambda>(k, triangle). k = tri_key (indices triangle)) (triangleMap st))"

section \<open>R16Writer\<close>

text \<open>
  The fields of the class that the code reads: \<open>out\<close> (the target path, \<open>null\<close> until the
  exporter sets it), \<open>heightData\<close>, \<open>minHeight\<close> and \<open>maxHeight\<close>. The fields \<open>column\<close> and
  \<open>row\<close> are set to 0 by the constructor and never read; they are left out.

  The heights of the grid are finite doubles, carried as the real numbers they denote. A
  sum or a quotient of \<open>setHeightDataFromChunks\<close> is rounded to the nearest double
  (\<open>nearest\<close>); a result beyond the largest double, which the code turns into an
  infinity, is outside the model. The normalisation of \<open>write\<close> is computed with the
  infinities and \<open>NaN\<close>.
\<close>

record r16writer =
  out :: "string option"
  heightData :: "real list"
  minHeight :: jsnum
  maxHeight :: jsnum

definition new_R16Writer :: r16writer where
  "new_R16Writer =
     \<lparr>out = None, heightData = [], minHeight = PosInf, maxHeight = NegInf\<rparr>"

subsection \<open>setHeightDataFromChunks\<close>

text \<open>
  A chunk of the ADT as the function reads it: the height samples \<open>vertices\<close> (\<open>None\<close>
  when the property is missing) and \<open>position\<close>, of which only the third component is
  used. \<open>chunks\<close> is a list of optional chunks: \<open>None\<close> is a hole of the array
  (\<open>undefined\<close> or \<open>null\<close>), and so is every index past its end.
\<close>

record chunk =
  vertices :: "real list option"
  position :: "real \<times> real \<times> real"

definition chunksPerSide :: nat where
  "chunksPerSide = 16"

definition vertsPerChunk :: nat where
  "vertsPerChunk = 17"

definition fullSize :: nat where
  "fullSize = chunksPerSide * (vertsPerChunk - 1) + 1"

text \<open>
  The two local arrays, and the fields \<open>minHeight\<close> and \<open>maxHeight\<close> of the writer as the
  loops update them (\<open>runMin\<close>, \<open>runMax\<close>).
\<close>

record grid =
  heights :: "real list"
  heightSet :: "bool list"
  runMin :: jsnum
  runMax :: jsnum

text \<open>
  The body of the innermost loop, lines 180 to 210, for the sample \<open>vertexIndex\<close> of the
  chunk at \<open>(chunkX, chunkY)\<close> in row \<open>r\<close> and column \<open>col\<close> of the chunk.
\<close>

definition place_vertex ::
  "nat \<Rightarrow> nat \<Rightarrow> real list \<Rightarrow> real \<times> real \<times> real \<Rightarrow> nat \<Rightarrow> nat \<Rightarrow> nat \<Rightarrow> grid \<Rightarrow> grid" where
  "place_vertex chunkX chunkY chunkVertices chunkPosition r col vertexIndex g =
     (let isShort = (r mod 2 \<noteq> 0);
          localX = (if isShort then col * 2 + 1 else col * 2);
          localY = r;
          globalX = chunkY * (vertsPerChunk - 1) + localX;
          globalY = chunkX * (vertsPerChunk - 1) + localY
      in if globalX < fullSize \<and> globalY < fullSize \<and> localX < vertsPerChunk \<and> localY < vertsPerChunk
         then
           (let index = globalY * fullSize + globalX in
            if \<not> heightSet g ! index then
              (let heightValue = nearest (chunkVertices ! vertexIndex + snd (snd chunkPosition)) in
               g\<lparr>heights := (heights g)[index := heightValue],
                 heightSet := (heightSet g)[index := True],
                 runMin := (if js_lt (Fin heightValue) (runMin g) then Fin heightValue else runMin g),
                 runMax := (if js_lt (runMax g) (Fin heightValue) then Fin heightValue else runMax g)\<rparr>)
            else g)
         else g)"

text \<open>
  The loop over the columns of one row, from the given column on. It carries
  \<open>vertexIndex\<close> and stops (\<open>break\<close>) when the samples are used up.
\<close>

fun col_loop ::
  "nat \<Rightarrow> nat \<Rightarrow> real list \<Rightarrow> real \<times> real \<times> real \<Rightarrow> nat \<Rightarrow> nat list \<Rightarrow> nat \<times> grid \<Rightarrow> nat \<times> grid" where
  "col_loop chunkX chunkY chunkVertices chunkPosition r [] (vertexIndex, g) = (vertexIndex, g)"
| "col_loop chunkX chunkY chunkVertices chunkPosition r (col # cols) (vertexIndex, g) =
     (if vertexIndex \<ge> length chunkVertices then (vertexIndex, g)
      else col_loop chunkX chunkY chunkVertices chunkPosition r cols
             (Suc vertexIndex,
              place_vertex chunkX chunkY chunkVertices chunkPosition r col vertexIndex g))"

definition colCount :: "nat \<Rightarrow> nat" where
  "colCount r = (if r mod 2 \<noteq> 0 then 8 else 9)"

definition row_step ::
  "nat \<Rightarrow> nat \<Rightarrow> real list \<Rightarrow> real \<times> real \<times> real \<Rightarrow> nat \<Rightarrow> nat \<times> grid \<Rightarrow> nat \<times> grid" where
  "row_step chunkX chunkY chunkVertices chunkPosition r s =
     col_loop chunkX chunkY chunkVertices chunkPosition r [0..<colCount r] s"

text \<open>The body of the loop over the chunks, lines 163 to 214.\<close>

definition process_chunk :: "chunk option list \<Rightarrow> nat \<Rightarrow> nat \<Rightarrow> grid \<Rightarrow> grid" where
  "process_chunk chunks chunkX chunkY g =
     (let chunkIndex = chunkX * chunksPerSide + chunkY in
      case (if chunkIndex < length chunks then chunks ! chunkIndex else None) of
        None \<Rightarrow> g
      | Some c \<Rightarrow>
          (case vertices c of
             None \<Rightarrow> g
           | Some chunkVertices \<Rightarrow>
               snd (fold (row_step chunkX chunkY chunkVertices (position c)) [0..<17] (0, g))))"

definition fill_from_chunks :: "chunk option list \<Rightarrow> grid \<Rightarrow> grid" where
  "fill_from_chunks chunks g =
     fold (\<lambda>chunkX. fold (\<lambda>chunkY. process_chunk chunks chunkX chunkY) [0..<chunksPerSide])
       [0..<chunksPerSide] g"

text \<open>
  The second pass, lines 219 to 254. The body for the cell \<open>(x, y)\<close>: the two neighbours
  are chosen by the parity of \<open>x\<close>; the offsets can be negative, so the neighbour's
  coordinates are integers. The accumulator is the pair of \<open>totalHeight\<close> and \<open>count\<close>;
  the sum and the quotient \<open>totalHeight / count\<close> are rounded.
\<close>

definition neighbors :: "nat \<Rightarrow> (int \<times> int) list" where
  "neighbors x = (if x mod 2 = 0 then [(0, -1), (0, 1)] else [(-1, 0), (1, 0)])"

definition add_neighbor :: "grid \<Rightarrow> nat \<Rightarrow> nat \<Rightarrow> int \<times> int \<Rightarrow> real \<times> nat \<Rightarrow> real \<times> nat" where
  "add_neighbor g x y d acc =
     (case d of (dx, dy) \<Rightarrow>
        (let nx = int x + dx; ny = int y + dy in
         if nx \<ge> 0 \<and> nx < int fullSize \<and> ny \<ge> 0 \<and> ny < int fullSize then
           (let nIndex = nat ny * fullSize + nat nx in
            if heightSet g ! nIndex then (nearest (fst acc + heights g ! nIndex), Suc (snd acc))
            else acc)
         else acc))"

definition interpolate_cell :: "nat \<Rightarrow> nat \<Rightarrow> grid \<Rightarrow> grid" where
  "interpolate_cell x y g =
     (let index = y * fullSize + x in
      if \<not> heightSet g ! index then
        (let (totalHeight, cnt) = fold (add_neighbor g x y) (neighbors x) (0, 0) in
         if cnt > 0 then
           g\<lparr>heights := (heights g)[index := nearest (totalHeight / real cnt)],
             heightSet := (heightSet g)[index := True]\<rparr>
         else g)
      else g)"

definition interpolate :: "grid \<Rightarrow> grid" where
  "interpolate g =
     fold (\<lambda>y. fold (\<lambda>x. interpolate_cell x y) [0..<fullSize]) [0..<fullSize] g"

text \<open>
  The grid the function builds for a writer \<open>w\<close>: both arrays start filled with 0 and
  \<open>false\<close>, the running minimum and maximum are the writer's fields; then the two passes
  run. The function stores the heights and leaves the minimum and maximum of the first
  pass in the writer.
\<close>

definition initial_grid :: "r16writer \<Rightarrow> grid" where
  "initial_grid w =
     \<lparr>heights = replicate (fullSize * fullSize) 0,
      heightSet = replicate (fullSize * fullSize) False,
      runMin = minHeight w, runMax = maxHeight w\<rparr>"

definition build_grid :: "chunk option list \<Rightarrow> r16writer \<Rightarrow> grid" where
  "build_grid chunks w = interpolate (fill_from_chunks chunks (initial_grid w))"

definition setHeightDataFromChunks :: "chunk option list \<Rightarrow> r16writer \<Rightarrow> r16writer" where
  "setHeightDataFromChunks chunks w =
     (let g = build_grid chunks w
      in w\<lparr>heightData := heights g, minHeight := runMin g, maxHeight := runMax g\<rparr>)"

text \<open>
  For the statements about the second pass. The cells are visited in the order of their
  index \<open>y * fullSize + x\<close>; \<open>when_visited g final i\<close> is the grid as the scan finds it on
  reaching cell \<open>i\<close>: the cells before \<open>i\<close> as the pass leaves them (\<open>final\<close>), the cells
  from \<open>i\<close> on as the pass found them (\<open>g\<close>). \<open>chosen_neighbours x y\<close> are the indices of
  the neighbours of \<open>(x, y)\<close> inside the grid that the specification names: the cells above
  and below when \<open>x\<close> is even, left and right when \<open>x\<close> is odd.
  \<open>set_neighbour_heights\<close> are the heights of those of them that are set.
\<close>

definition when_visited :: "grid \<Rightarrow> grid \<Rightarrow> nat \<Rightarrow> grid" where
  "when_visited g final i =
     g\<lparr>heights := take i (heights final) @ drop i (heights g),
       heightSet := take i (heightSet final) @ drop i (heightSet g)\<rparr>"

definition chosen_neighbours :: "nat \<Rightarrow> nat \<Rightarrow> nat list" where
  "chosen_neighbours x y =
     (if even x
      then (if 0 < y then [(y - 1) * fullSize + x] else [])
           @ (if y + 1 < fullSize then [(y + 1) * fullSize + x] else [])
      else (if 0 < x then [y * fullSize + (x - 1)] else [])
           @ (if x + 1 < fullSize then [y * fullSize + (x + 1)] else []))"

definition set_neighbour_heights :: "grid \<Rightarrow> nat list \<Rightarrow> real list" where
  "set_neighbour_heights g ns = map (\<lambda>k. heights g ! k) (filter (\<lambda>k. heightSet g ! k) ns)"

text \<open>
  The average of a list of heights as the second pass computes it: \<open>totalHeight\<close> starts
  at 0 and takes the heights one by one, then it is divided by their number, every
  operation in doubles.
\<close>

definition rounded_sum :: "real list \<Rightarrow> real" where
  "rounded_sum hs = foldl (\<lambda>total h. nearest (total + h)) 0 hs"

definition rounded_average :: "real list \<Rightarrow> real" where
  "rounded_average hs = nearest (rounded_sum hs / real (length hs))"

text \<open>
  For the statements about the first pass. The samples of a chunk are consumed in the
  order of the rows and columns: \<open>vindex r col\<close> is the position in \<open>vertices\<close> of the
  sample of row \<open>r\<close> and column \<open>col\<close>, and \<open>target chunkX chunkY r col\<close> is the index of
  the grid cell it is written to.
\<close>

definition vindex :: "nat \<Rightarrow> nat \<Rightarrow> nat" where
  "vindex r col = 17 * (r div 2) + 9 * (r mod 2) + col"

definition target :: "nat \<Rightarrow> nat \<Rightarrow> nat \<Rightarrow> nat \<Rightarrow> nat" where
  "target chunkX chunkY r col =
     (chunkX * 16 + r) * fullSize + (chunkY * 16 + (if r mod 2 \<noteq> 0 then col * 2 + 1 else col * 2))"

text \<open>
  A tile used as an example below: its only chunk is the first one, with two samples, 10
  and 20, and the z offset 1.
\<close>

definition two_sample_tile :: "chunk option list" where
  "two_sample_tile = [Some \<lparr>vertices = Some [10, 20], position = (0, 0, 1)\<rparr>]"

text \<open>
  For the proofs. Both passes visit their sites in the order of one index: the second pass
  the cells in the order of the cell index (\<open>cell_step\<close>), the first pass the chunks in the
  order of \<open>chunkX * 16 + chunkY\<close> (\<open>chunk_step\<close>). \<open>col_step\<close> is one iteration of the
  loop over the columns, where a \<open>break\<close> shows as every later iteration doing nothing.
  \<open>grid_ok\<close> says that both arrays have the size of the grid.
\<close>

definition cell_step :: "nat \<Rightarrow> grid \<Rightarrow> grid" where
  "cell_step i = interpolate_cell (i mod fullSize) (i div fullSize)"

definition col_step ::
  "nat \<Rightarrow> nat \<Rightarrow> real list \<Rightarrow> real \<times> real \<times> real \<Rightarrow> nat \<Rightarrow> nat \<Rightarrow> nat \<times> grid \<Rightarrow> nat \<times> grid" where
  "col_step chunkX chunkY vs pos r col s =
     (if length vs \<le> fst s then s
      else (Suc (fst s), place_vertex chunkX chunkY vs pos r col (fst s) (snd s)))"

definition grid_ok :: "grid \<Rightarrow> bool" where
  "grid_ok g \<longleftrightarrow> length (heights g) = fullSize * fullSize \<and> length (heightSet g) = fullSize * fullSize"

definition chunk_step :: "chunk option list \<Rightarrow> nat \<Rightarrow> grid \<Rightarrow> grid" where
  "chunk_step chunks n = process_chunk chunks (n div 16) (n mod 16)"

text \<open>
  For the statement about a fully populated tile: every one of the 256 chunks is present
  and has (at least) the 145 samples of a complete chunk. \<open>samples chunks\<close> are the heights
  the chunks offer: each raw sample plus the z offset of its chunk, the sum in doubles.
\<close>

definition fully_populated :: "chunk option list \<Rightarrow> bool" where
  "fully_populated chunks \<longleftrightarrow>
     256 \<le> length chunks
     \<and> (\<forall>n < 256. \<exists>c vs. chunks ! n = Some c \<and> vertices c = Some vs \<and> 145 \<le> length vs)"

definition samples :: "chunk option list \<Rightarrow> real set" where
  "samples chunks =
     {nearest (vs ! vi + snd (snd (position c))) | n c vs vi.
        n < 256 \<and> n < length chunks \<and> chunks ! n = Some c \<and> vertices c = Some vs \<and> vi < length vs}"

text \<open>
  The invariant that ties the running minimum and maximum to the cells written so far:
  either no cell is set and the two are still \<open>Infinity\<close> and \<open>-Infinity\<close>, or they are the
  least and the greatest height among the set cells, both of them doubles.
  \<open>heights_between m M g\<close> says that the set cells lie between \<open>m\<close> and \<open>M\<close>.
\<close>

definition heights_between :: "real \<Rightarrow> real \<Rightarrow> grid \<Rightarrow> bool" where
  "heights_between m M g \<longleftrightarrow>
     (\<forall>j < fullSize * fullSize. heightSet g ! j \<longrightarrow> m \<le> heights g ! j \<and> heights g ! j \<le> M)"

definition range_ok :: "grid \<Rightarrow> bool" where
  "range_ok g \<longleftrightarrow>
     grid_ok g
     \<and> ((runMin g = PosInf \<and> runMax g = NegInf \<and> (\<forall>j < fullSize * fullSize. \<not> heightSet g ! j))
        \<or> (\<exists>m M. runMin g = Fin m \<and> runMax g = Fin M \<and> heights_between m M g
              \<and> nearest m = m \<and> nearest M = M
              \<and> (\<exists>j < fullSize * fullSize. heightSet g ! j \<and> heights g ! j = m)
              \<and> (\<exists>j < fullSize * fullSize. heightSet g ! j \<and> heights g ! j = M)))"

text \<open>
  Two fully populated tiles used as examples below. In \<open>flat_tile\<close> every chunk has 145
  samples of 7 and the z offset 3. In \<open>ridge_tile\<close> every sample is 0, but for the first
  sample of the chunk of index 1, which is 1000: that sample belongs to the top left corner
  of the chunk, a cell on the border shared with chunk 0.
\<close>

definition flat_tile :: "chunk option list" where
  "flat_tile = replicate 256 (Some \<lparr>vertices = Some (replicate 145 7), position = (0, 0, 3)\<rparr>)"

definition ridge_tile :: "chunk option list" where
  "ridge_tile =
     map (\<lambda>n. Some \<lparr>vertices = Some ((if n = 1 then 1000 else 0) # replicate 144 0),
                     position = (0, 0, 0)\<rparr>) [0..<256]"

subsection \<open>write\<close>

type_synonym byte = "8 word"

datatype write_error = ERR_INVALID_ARG_TYPE | ERR_OUT_OF_RANGE | IO_ERROR

text \<open>
  \<open>buffer.writeUInt16LE(value, offset)\<close> of Node.js, which is not part of the repository:
  it throws a range error when \<open>value\<close> is below 0 or above 65535 (the comparisons are
  false for \<open>NaN\<close>, which is then stored as 0) or when the two bytes do not fit at \<open>offset\<close>;
  otherwise it stores the low byte at \<open>offset\<close> and the high byte at \<open>offset + 1\<close>.
\<close>

definition writeUInt16LE :: "byte list \<Rightarrow> jsnum \<Rightarrow> nat \<Rightarrow> write_error + byte list" where
  "writeUInt16LE buffer v offset =
     (if js_lt (Fin 65535) v \<or> js_lt v (Fin 0) then Inl ERR_OUT_OF_RANGE
      else if offset + 2 > length buffer then Inl ERR_OUT_OF_RANGE
      else
        (let n = (case v of Fin x \<Rightarrow> \<lfloor>x\<rfloor> | _ \<Rightarrow> 0)
         in Inr (buffer[offset := word_of_int n, offset + 1 := word_of_int (n div 256)])))"

text \<open>Lines 281 and 284: the normalised height, scaled to 16 bits and rounded.\<close>

definition r16Value :: "jsnum \<Rightarrow> jsnum \<Rightarrow> real \<Rightarrow> jsnum" where
  "r16Value minH maxH h =
     (let normalizedHeight = js_div (js_sub (Fin h) minH) (js_sub maxH minH)
      in math_round (js_mul normalizedHeight (Fin 65535)))"

text \<open>
  The loop of lines 279 to 286 from cell \<open>i\<close> on, over the remaining cells; an exception
  leaves the loop.
\<close>

fun write_cells :: "jsnum \<Rightarrow> jsnum \<Rightarrow> real list \<Rightarrow> nat \<Rightarrow> byte list \<Rightarrow> write_error + byte list" where
  "write_cells minH maxH [] i buffer = Inr buffer"
| "write_cells minH maxH (h # hs) i buffer =
     (case writeUInt16LE buffer (r16Value minH maxH h) (i * 2) of
        Inl e \<Rightarrow> Inl e
      | Inr buffer' \<Rightarrow> write_cells minH maxH hs (Suc i) buffer')"

text \<open>
  \<open>Buffer.alloc(fullSize * fullSize * 2)\<close> with \<open>fullSize = Math.sqrt(heightData.length)\<close>: a
  zero-filled buffer. The size is computed in doubles and a fractional size is truncated,
  so the buffer is shorter than two bytes per cell when the rounded root, squared, falls
  below the number of cells. A size that is not a number is refused; the upper limit that
  Node.js puts on the size of a buffer is not modelled.
\<close>

definition alloc_buffer :: "real list \<Rightarrow> write_error + byte list" where
  "alloc_buffer hs =
     (let fullSize = math_sqrt (Fin (real (length hs))) in
      case js_mul (js_mul fullSize fullSize) (Fin 2) of
        Fin byteLength \<Rightarrow> Inr (replicate (nat \<lfloor>byteLength\<rfloor>) 0)
      | _ \<Rightarrow> Inl ERR_OUT_OF_RANGE)"

text \<open>
  What the file system and the stream answer during one call of \<open>write\<close>: whether the
  target exists (\<open>generics.fileExists\<close>), whether the directory can be created, and whether
  the stream accepts the buffer.
\<close>

record write_io =
  file_exists :: bool
  mkdir_ok :: bool
  stream_ok :: bool

text \<open>
  The method \<open>write(overwrite)\<close>, named \<open>write_r16\<close> here: \<open>Inr None\<close> when the call
  returns without writing, \<open>Inr (Some buffer)\<close> when \<open>buffer\<close> was written to the stream
  of the file \<open>out\<close>, \<open>Inl e\<close> when the call throws. \<open>path.dirname\<close> throws when \<open>out\<close> is
  still \<open>null\<close>.
\<close>

definition write_r16 :: "r16writer \<Rightarrow> bool \<Rightarrow> write_io \<Rightarrow> write_error + byte list option" where
  "write_r16 w overwrite io =
     (if \<not> overwrite \<and> file_exists io then Inr None
      else if out w = None then Inl ERR_INVALID_ARG_TYPE
      else if \<not> mkdir_ok io then Inl IO_ERROR
      else case alloc_buffer (heightData w) of
             Inl e \<Rightarrow> Inl e
           | Inr buffer0 \<Rightarrow>
               (case write_cells (minHeight w) (maxHeight w) (heightData w) 0 buffer0 of
                  Inl e \<Rightarrow> Inl e
                | Inr buffer \<Rightarrow> if stream_ok io then Inr (Some buffer) else Inl IO_ERROR))"

text \<open>
  For the statement of the file format: the unsigned 16-bit little-endian number at an
  offset of a byte list.
\<close>

definition readUInt16LE :: "byte list \<Rightarrow> nat \<Rightarrow> int" where
  "readUInt16LE buffer offset = uint (buffer ! offset) + 256 * uint (buffer ! (offset + 1))"

text \<open>
  For the proofs: the two bytes at \<open>offset\<close> hold the value of the cell of height \<open>h\<close>,
  an integer that fits 16 bits.
\<close>

definition cell_written :: "jsnum \<Rightarrow> jsnum \<Rightarrow> real \<Rightarrow> byte list \<Rightarrow> nat \<Rightarrow> bool" where
  "cell_written minH maxH h buffer offset \<longleftrightarrow>
     (\<exists>v. r16Value minH maxH h = Fin (of_int v) \<and> 0 \<le> v \<and> v \<le> 65535
         \<and> buffer ! offset = word_of_int v \<and> buffer ! (offset + 1) = word_of_int (v div 256)
         \<and> readUInt16LE buffer offset = v)"

section \<open>The tile export (tab-maps.js, exportSelectedMap)\<close>

text \<open>
  What \<open>exportSelectedMap\<close> does depends on collaborators that are not part of the
  repository files at hand; their answers are the fields of an environment.
  \<^item> \<open>adt.export\<close> either throws (\<open>Export_failed\<close> with the message) or returns the
    descriptor \<open>out = {type, path}\<close>; during the call it fills the \<open>R16Writer\<close> it was
    given, which is the function carried by \<open>Exported\<close>, applied to the fresh writer. The
    game objects handed to it are part of that answer; the look-up is taken to succeed.
  \<^item> \<open>helper.isCancelled()\<close> is polled once at the head of every iteration of either
    loop: \<open>cancelled_pass1 env i\<close> and \<open>cancelled_pass2 env i\<close> are the answers in
    iteration \<open>i\<close>.
  \<^item> \<open>write_io_of env i\<close> is what the file system answers to the \<open>i\<close>-th writer,
    \<open>manifest_ok\<close> whether the metadata file can be written, \<open>exportPaths_open\<close> whether
    \<open>core.openLastExportStream()\<close> returned a stream.
  The calls that only report progress (\<open>setCurrentTaskName\<close>, \<open>setCurrentTaskValue\<close>,
  \<open>start\<close>, \<open>finish\<close>) and \<open>ADTExporter.clearCache()\<close> leave no trace in the model.
\<close>

record export_out =
  out_type :: string
  out_path :: string

datatype tile_outcome = Export_failed string | Exported export_out "r16writer \<Rightarrow> r16writer"

record export_env =
  mapsExportHeightmap :: bool
  adt_export :: "nat \<Rightarrow> tile_outcome"
  cancelled_pass1 :: "nat \<Rightarrow> bool"
  cancelled_pass2 :: "nat \<Rightarrow> bool"
  write_io_of :: "nat \<Rightarrow> write_io"
  manifest_ok :: bool
  exportPaths_open :: bool
  markPath :: string

text \<open>A call of \<open>helper.mark(item, state, message, stack)\<close>; the stack trace is left out.\<close>

datatype failure = Tile_error string | Write_error write_error | Metadata_error

record mark =
  mark_item :: string
  mark_state :: bool
  mark_failure :: "failure option"

text \<open>The variables of the function that the two passes share.\<close>

record job_state =
  r16Writers :: "r16writer list"
  adtExports :: "(export_out \<times> nat) list"
  globalMinHeight :: jsnum
  globalMaxHeight :: jsnum
  marks :: "mark list"

definition initial_job :: job_state where
  "initial_job = \<lparr>r16Writers = [], adtExports = [], globalMinHeight = PosInf,
     globalMaxHeight = NegInf, marks = []\<rparr>"

text \<open>The \<open>try\<close>/\<open>catch\<close> of pass 1 (lines 265 to 287) for the \<open>i\<close>-th tile, of index \<open>index\<close>.\<close>

definition export_tile :: "export_env \<Rightarrow> nat \<Rightarrow> nat \<Rightarrow> job_state \<Rightarrow> job_state" where
  "export_tile env i index st =
     (case adt_export env index of
        Export_failed msg \<Rightarrow>
          st\<lparr>marks := marks st @
               [\<lparr>mark_item = markPath env, mark_state = False, mark_failure = Some (Tile_error msg)\<rparr>]\<rparr>
      | Exported descriptor populate \<Rightarrow>
          (let st1 = st\<lparr>adtExports := adtExports st @ [(descriptor, i)]\<rparr>;
               st2 = (if mapsExportHeightmap env then
                        (let r16Writer = populate new_R16Writer;
                             mn = minHeight r16Writer;
                             mx = maxHeight r16Writer
                         in st1\<lparr>r16Writers := r16Writers st1 @ [r16Writer],
                                globalMinHeight :=
                                  (if js_lt mn (globalMinHeight st1) then mn else globalMinHeight st1),
                                globalMaxHeight :=
                                  (if js_lt (globalMaxHeight st1) mx then mx else globalMaxHeight st1)\<rparr>)
                      else st1)
           in st2\<lparr>marks := marks st2 @
                [\<lparr>mark_item = markPath env, mark_state = True, mark_failure = None\<rparr>]\<rparr>))"

text \<open>The loop of pass 1 from iteration \<open>i\<close> on, over the remaining tiles.\<close>

fun pass1_loop :: "export_env \<Rightarrow> nat \<Rightarrow> nat list \<Rightarrow> job_state \<Rightarrow> job_state" where
  "pass1_loop env i [] st = st"
| "pass1_loop env i (index # rest) st =
     (if cancelled_pass1 env i then st
      else pass1_loop env (Suc i) rest (export_tile env i index st))"

text \<open>
  Pass 2 collects the files that were written (target path and bytes) and the marks of
  the writers that failed.
\<close>

record pass2_state =
  files :: "(string option \<times> byte list) list"
  marks2 :: "mark list"

definition write_heightmap ::
  "export_env \<Rightarrow> jsnum \<Rightarrow> jsnum \<Rightarrow> nat \<Rightarrow> r16writer \<Rightarrow> pass2_state \<Rightarrow> pass2_state" where
  "write_heightmap env gmin gmax i r16Writer st =
     (let w = r16Writer\<lparr>minHeight := gmin, maxHeight := gmax\<rparr> in
      case write_r16 w True (write_io_of env i) of
        Inl e \<Rightarrow>
          st\<lparr>marks2 := marks2 st @
               [\<lparr>mark_item = markPath env, mark_state = False, mark_failure = Some (Write_error e)\<rparr>]\<rparr>
      | Inr None \<Rightarrow> st
      | Inr (Some buffer) \<Rightarrow> st\<lparr>files := files st @ [(out w, buffer)]\<rparr>)"

fun pass2_loop ::
  "export_env \<Rightarrow> jsnum \<Rightarrow> jsnum \<Rightarrow> nat \<Rightarrow> r16writer list \<Rightarrow> pass2_state \<Rightarrow> pass2_state" where
  "pass2_loop env gmin gmax i [] st = st"
| "pass2_loop env gmin gmax i (r16Writer # rest) st =
     (if cancelled_pass2 env i then st
      else pass2_loop env gmin gmax (Suc i) rest (write_heightmap env gmin gmax i r16Writer st))"

text \<open>The record written to \<open>heightmap_metadata.json\<close>.\<close>

record metadata =
  tile_count :: nat
  min_height :: jsnum
  max_height :: jsnum
  range :: jsnum

text \<open>What a run leaves behind.\<close>

record export_result =
  heightmaps :: "(string option \<times> byte list) list"
  manifest :: "metadata option"
  exportPaths :: "string list"
  helper_marks :: "mark list"

text \<open>
  The function. With no tile selected it shows a toast and returns (\<open>None\<close>). Otherwise
  pass 1 runs; if it collected a writer, pass 2 runs and then the metadata file is
  written, a failure there being marked; last, one line per successful export goes to the
  export stream, if there is one.
\<close>

definition exportSelectedMap :: "export_env \<Rightarrow> nat list \<Rightarrow> export_result option" where
  "exportSelectedMap env exportTiles =
     (if exportTiles = [] then None
      else
        (let st = pass1_loop env 0 exportTiles initial_job;
             p2 = (if r16Writers st \<noteq> [] then
                     pass2_loop env (globalMinHeight st) (globalMaxHeight st) 0 (r16Writers st)
                       \<lparr>files = [], marks2 = []\<rparr>
                   else \<lparr>files = [], marks2 = []\<rparr>);
             meta = (if r16Writers st \<noteq> [] \<and> manifest_ok env then
                       Some \<lparr>tile_count = length (r16Writers st),
                             min_height = globalMinHeight st,
                             max_height = globalMaxHeight st,
                             range = js_sub (globalMaxHeight st) (globalMinHeight st)\<rparr>
                     else None);
             meta_marks = (if r16Writers st \<noteq> [] \<and> \<not> manifest_ok env then
                             [\<lparr>mark_item = ''heightmap metadata'', mark_state = False,
                               mark_failure = Some Metadata_error\<rparr>]
                           else [])
         in Some \<lparr>heightmaps = files p2,
                  manifest = meta,
                  exportPaths = (if exportPaths_open env
                                 then map (\<lambda>(descriptor, i). out_type descriptor @ '':'' @ out_path descriptor)
                                        (adtExports st)
                                 else []),
                  helper_marks = marks st @ marks2 p2 @ meta_marks\<rparr>))"

text \<open>
  For the statements: the global height range folded from a list of writers, as pass 1
  folds it (\<open>if (min < globalMinHeight) globalMinHeight = min\<close>, and likewise for the
  maximum), starting from \<open>(Infinity, -Infinity)\<close>; and the two kinds of mark of pass 1.
\<close>

definition fold_range :: "jsnum \<times> jsnum \<Rightarrow> r16writer \<Rightarrow> jsnum \<times> jsnum" where
  "fold_range g w =
     ((if js_lt (minHeight w) (fst g) then minHeight w else fst g),
      (if js_lt (snd g) (maxHeight w) then maxHeight w else snd g))"

definition global_range :: "r16writer list \<Rightarrow> jsnum \<times> jsnum" where
  "global_range ws = foldl fold_range (PosInf, NegInf) ws"

definition tile_ok :: "export_env \<Rightarrow> mark" where
  "tile_ok env = \<lparr>mark_item = markPath env, mark_state = True, mark_failure = None\<rparr>"

definition tile_failed :: "export_env \<Rightarrow> string \<Rightarrow> mark" where
  "tile_failed env msg =
     \<lparr>mark_item = markPath env, mark_state = False, mark_failure = Some (Tile_error msg)\<rparr>"

text \<open>
  Two jobs used as examples below. In the first, one tile is exported with its heightmap
  and cancellation is asserted after pass 1. In the second, three tiles are selected; the
  export of tile 11 throws, tiles 10 and 12 are exported with a four-cell heightmap each
  (heights from 5 to 9 and from 1 to 7), and nothing is cancelled.
\<close>

definition cancelled_job :: export_env where
  "cancelled_job =
     \<lparr>mapsExportHeightmap = True,
      adt_export = (\<lambda>index. Exported \<lparr>out_type = ''ADT'', out_path = ''adt_32_48.obj''\<rparr>
         (\<lambda>w. w\<lparr>out := Some ''adt_32_48.r16'', heightData := [0, 1], minHeight := Fin 0,
                  maxHeight := Fin 1\<rparr>)),
      cancelled_pass1 = (\<lambda>i. False),
      cancelled_pass2 = (\<lambda>i. True),
      write_io_of = (\<lambda>i. \<lparr>file_exists = False, mkdir_ok = True, stream_ok = True\<rparr>),
      manifest_ok = True,
      exportPaths_open = True,
      markPath = ''maps/azeroth/azeroth''\<rparr>"

definition three_tiles_writer :: "nat \<Rightarrow> r16writer \<Rightarrow> r16writer" where
  "three_tiles_writer index w =
     (if index = 10
      then w\<lparr>out := Some ''adt_0_10.r16'', heightData := [5, 6, 8, 9],
              minHeight := Fin 5, maxHeight := Fin 9\<rparr>
      else w\<lparr>out := Some ''adt_0_12.r16'', heightData := [1, 2, 3, 7],
              minHeight := Fin 1, maxHeight := Fin 7\<rparr>)"

definition three_tiles_job :: export_env where
  "three_tiles_job =
     \<lparr>mapsExportHeightmap = True,
      adt_export = (\<lambda>index.
         if index = 11 then Export_failed ''missing tile data''
         else Exported \<lparr>out_type = ''ADT'',
                         out_path = (if index = 10 then ''adt_0_10.obj'' else ''adt_0_12.obj'')\<rparr>
                (three_tiles_writer index)),
      cancelled_pass1 = (\<lambda>i. False),
      cancelled_pass2 = (\<lambda>i. False),
      write_io_of = (\<lambda>i. \<lparr>file_exists = False, mkdir_ok = True, stream_ok = True\<rparr>),
      manifest_ok = True,
      exportPaths_open = True,
      markPath = ''maps/azeroth/azeroth''\<rparr>"

chapter \<open>Properties\<close>

section \<open>Properties of the number model\<close>

subsection \<open>Rounding to an integer\<close>

lemma rhe_int [simp]: "round_half_even (of_int n) = n"
  by (simp add: round_half_even_def)

lemma rhe_0 [simp]: "round_half_even 0 = 0"
  using rhe_int [of 0] by simp

lemma rhe_range: "round_half_even t = \<lfloor>t\<rfloor> \<or> round_half_even t = \<lfloor>t\<rfloor> + 1"
  by (simp add: round_half_even_def Let_def)

lemma rhe_unfold:
  assumes "\<lfloor>t\<rfloor> = f"
  shows "round_half_even t =
     (if t - of_int f < 1 / 2 then f else if t - of_int f > 1 / 2 then f + 1
      else if even f then f else f + 1)"
  using assms by (simp add: round_half_even_def Let_def)

lemma rhe_mono:
  assumes "s \<le> t"
  shows "round_half_even s \<le> round_half_even t"
proof (cases "\<lfloor>s\<rfloor> = \<lfloor>t\<rfloor>")
  case True
  show ?thesis
    unfolding rhe_unfold [OF True] rhe_unfold [OF refl, of t] using assms by auto
next
  case False
  then have "\<lfloor>s\<rfloor> < \<lfloor>t\<rfloor>" using floor_mono [OF assms] by linarith
  then show ?thesis using rhe_range [of s] rhe_range [of t] by linarith
qed

lemma floor_minus_nonint:
  assumes "t \<notin> \<int>"
  shows "\<lfloor>- t\<rfloor> = - \<lfloor>t\<rfloor> - 1"
proof -
  have "of_int \<lfloor>t\<rfloor> \<noteq> t" using assms by (metis Ints_of_int)
  then have lt: "of_int \<lfloor>t\<rfloor> < t" using of_int_floor_le [of t] by linarith
  have up: "t < of_int \<lfloor>t\<rfloor> + 1" by linarith
  show ?thesis
  proof (rule floor_unique)
    show "of_int (- \<lfloor>t\<rfloor> - 1) \<le> - t" using up by simp
    show "- t < of_int (- \<lfloor>t\<rfloor> - 1) + 1" using lt by simp
  qed
qed

lemma rhe_minus: "round_half_even (- t) = - round_half_even t"
proof (cases "t \<in> \<int>")
  case True
  then obtain n where n: "t = of_int n" by (auto elim: Ints_cases)
  have "round_half_even (of_int (- n)) = - n" by (rule rhe_int)
  then show ?thesis using n by simp
next
  case False
  define f where "f = \<lfloor>t\<rfloor>"
  have f: "\<lfloor>t\<rfloor> = f" by (simp add: f_def)
  have g: "\<lfloor>- t\<rfloor> = - f - 1" using floor_minus_nonint [OF False] by (simp add: f_def)
  show ?thesis
    unfolding rhe_unfold [OF f] rhe_unfold [OF g] by auto
qed

lemma rhe_error: "\<bar>of_int (round_half_even t) - t\<bar> \<le> 1 / 2"
proof -
  define f where "f = \<lfloor>t\<rfloor>"
  have f: "\<lfloor>t\<rfloor> = f" by (simp add: f_def)
  have "of_int f \<le> t" "t < of_int f + 1" unfolding f_def by linarith+
  then show ?thesis unfolding rhe_unfold [OF f] by auto
qed


subsection \<open>Binades\<close>

lemma ulp_pos [simp]: "ulp x > 0"
  by (simp add: ulp_def)

lemma ulp_nonneg [simp]: "ulp x \<ge> 0"
  using ulp_pos [of x] by linarith

lemma ulp_nonzero [simp]: "ulp x \<noteq> 0"
  using ulp_pos [of x] by linarith

lemma binade_minus [simp]: "binade (- x) = binade x"
  by (simp add: binade_def)

lemma ulp_minus [simp]: "ulp (- x) = ulp x"
  by (simp add: ulp_def)

lemma binade_abs [simp]: "binade \<bar>x\<bar> = binade x"
  by (simp add: binade_def)

lemma ulp_abs [simp]: "ulp \<bar>x\<bar> = ulp x"
  by (simp add: ulp_def)

lemma nearest_abs: "nearest \<bar>x\<bar> = \<bar>nearest x\<bar>"
proof -
  have nn: "0 \<le> y / ulp y \<Longrightarrow> 0 \<le> of_int (round_half_even (y / ulp y)) * ulp y" for y
    using rhe_mono [of 0 "y / ulp y"] by (intro mult_nonneg_nonneg) simp_all
  show ?thesis
  proof (cases "0 \<le> x")
    case True
    then have "0 \<le> x / ulp x" by (intro divide_nonneg_pos) simp_all
    then show ?thesis using True nn [of x] by (simp add: nearest_def)
  next
    case False
    then have "0 \<le> (- x) / ulp (- x)" by (intro divide_nonneg_pos) simp_all
    then have "0 \<le> of_int (round_half_even ((- x) / ulp (- x))) * ulp (- x)" by (rule nn)
    then have "0 \<le> - (of_int (round_half_even (x / ulp x)) * ulp x)"
      using rhe_minus [of "x / ulp x"] by simp
    then show ?thesis using False rhe_minus [of "x / ulp x"] by (simp add: nearest_def abs_if)
  qed
qed

lemma nearest_minus: "nearest (- x) = - nearest x"
  by (simp add: nearest_def rhe_minus)

lemma nearest_0 [simp]: "nearest 0 = 0"
  by (simp add: nearest_def)

lemma binade_ge: "- 1022 \<le> binade x"
  by (simp add: binade_def)

lemma powr_powi: "2 powr real_of_int k = (2 :: real) powi k"
  by (rule powr_real_of_int') simp_all

lemma floor_log2_iff:
  assumes "x > 0"
  shows "\<lfloor>log 2 x\<rfloor> = e \<longleftrightarrow> 2 powi e \<le> x \<and> x < 2 powi (e + 1)"
proof -
  have "\<lfloor>log 2 x\<rfloor> = e \<longleftrightarrow> 2 powr real_of_int e \<le> x \<and> x < 2 powr real_of_int (e + 1)"
    by (rule floor_log_eq_powr_iff) (use assms in simp_all)
  then show ?thesis unfolding powr_powi .
qed

lemma floor_log2_bounds:
  assumes "x > 0"
  shows "2 powi \<lfloor>log 2 x\<rfloor> \<le> x" "x < 2 powi (\<lfloor>log 2 x\<rfloor> + 1)"
  using floor_log2_iff [OF assms, of "\<lfloor>log 2 x\<rfloor>"] by simp_all

lemma floor_log2_eq:
  assumes "2 powi e \<le> x" "x < 2 powi (e + 1)"
  shows "\<lfloor>log 2 x\<rfloor> = e"
proof -
  have "(0 :: real) < 2 powi e" by simp
  then have pos: "x > 0" using assms(1) by linarith
  show ?thesis using floor_log2_iff [OF pos, of e] assms by simp
qed

lemma binade_upper:
  assumes "x \<noteq> 0"
  shows "\<bar>x\<bar> < 2 powi (binade x + 1)"
proof -
  have pos: "\<bar>x\<bar> > 0" using assms by simp
  have "\<bar>x\<bar> < 2 powi (\<lfloor>log 2 \<bar>x\<bar>\<rfloor> + 1)" by (rule floor_log2_bounds [OF pos])
  also have "\<dots> \<le> 2 powi (binade x + 1)"
    by (intro power_int_increasing) (use assms in \<open>simp_all add: binade_def\<close>)
  finally show ?thesis .
qed

lemma binade_lower:
  assumes "- 1022 < binade x"
  shows "2 powi binade x \<le> \<bar>x\<bar>"
proof -
  have nz: "x \<noteq> 0" using assms by (auto simp: binade_def)
  then have b: "binade x = \<lfloor>log 2 \<bar>x\<bar>\<rfloor>"
    using assms by (simp add: binade_def max_def split: if_splits)
  have pos: "\<bar>x\<bar> > 0" using nz by simp
  show ?thesis unfolding b by (rule floor_log2_bounds [OF pos])
qed

lemma binade_eq:
  assumes "2 powi e \<le> \<bar>x\<bar>" "\<bar>x\<bar> < 2 powi (e + 1)" "- 1022 \<le> e"
  shows "binade x = e"
proof -
  have "(0 :: real) < 2 powi e" by simp
  then have "0 < \<bar>x\<bar>" using assms(1) by linarith
  then have "x \<noteq> 0" by simp
  then show ?thesis using floor_log2_eq [OF assms(1,2)] assms(3) by (simp add: binade_def)
qed

lemma binade_mono:
  assumes "x \<noteq> 0" "\<bar>x\<bar> \<le> \<bar>y\<bar>"
  shows "binade x \<le> binade y"
proof -
  have "log 2 \<bar>x\<bar> \<le> log 2 \<bar>y\<bar>" using assms by simp
  then have "\<lfloor>log 2 \<bar>x\<bar>\<rfloor> \<le> \<lfloor>log 2 \<bar>y\<bar>\<rfloor>" by (rule floor_mono)
  moreover have "y \<noteq> 0" using assms by auto
  ultimately show ?thesis using assms(1) by (simp add: binade_def)
qed

subsection \<open>Rounding is monotone\<close>

text \<open>
  A rounded number stays inside the closed binade of the number, so rounding keeps the
  order within a binade and across binades.
\<close>

lemma nearest_upper:
  "\<bar>nearest x\<bar> \<le> 2 powi (binade x + 1)"
proof (cases "x = 0")
  case True
  then show ?thesis by (simp add: nearest_def)
next
  case False
  have eq: "(2 :: real) powi (binade x + 1) = 2 ^ 53 * ulp x"
    by (simp add: ulp_def power_int_diff power_int_add)
  have a: "\<bar>x\<bar> / ulp x \<le> of_int (2 ^ 53)"
    using binade_upper [OF False] unfolding eq by (simp add: field_simps)
  have b: "round_half_even (\<bar>x\<bar> / ulp x) \<le> 2 ^ 53"
    using rhe_mono [OF a] unfolding rhe_int .
  have "of_int (round_half_even (\<bar>x\<bar> / ulp x)) * ulp x \<le> of_int (2 ^ 53) * ulp x"
    by (intro mult_right_mono) (use b in simp_all)
  then have "nearest \<bar>x\<bar> \<le> 2 ^ 53 * ulp x" by (simp add: nearest_def)
  then show ?thesis unfolding nearest_abs eq .
qed

lemma nearest_lower:
  assumes "- 1022 < binade x"
  shows "2 powi binade x \<le> \<bar>nearest x\<bar>"
proof -
  have eq: "(2 :: real) powi binade x = 2 ^ 52 * ulp x"
    by (simp add: ulp_def power_int_diff)
  have a: "of_int (2 ^ 52) \<le> \<bar>x\<bar> / ulp x"
    using binade_lower [OF assms] unfolding eq by (simp add: field_simps)
  have b: "2 ^ 52 \<le> round_half_even (\<bar>x\<bar> / ulp x)"
    using rhe_mono [OF a] unfolding rhe_int .
  have "of_int (2 ^ 52) * ulp x \<le> of_int (round_half_even (\<bar>x\<bar> / ulp x)) * ulp x"
    by (intro mult_right_mono) (use b in simp_all)
  then have "2 ^ 52 * ulp x \<le> nearest \<bar>x\<bar>" by (simp add: nearest_def)
  then show ?thesis unfolding nearest_abs eq .
qed

lemma nearest_nonneg:
  assumes "0 \<le> x"
  shows "0 \<le> nearest x"
proof -
  have "0 \<le> x / ulp x" using assms by (intro divide_nonneg_pos) simp_all
  then have "0 \<le> round_half_even (x / ulp x)" using rhe_mono [of 0 "x / ulp x"] by simp
  then show ?thesis unfolding nearest_def by (intro mult_nonneg_nonneg) simp_all
qed

lemma nearest_mono_pos:
  assumes "0 \<le> x" "x \<le> y"
  shows "nearest x \<le> nearest y"
proof (cases "x = 0")
  case True
  then show ?thesis using nearest_nonneg [of y] assms by simp
next
  case False
  have le: "binade x \<le> binade y" by (rule binade_mono [OF False]) (use assms in simp)
  show ?thesis
  proof (cases "binade x = binade y")
    case True
    then have u: "ulp x = ulp y" by (simp add: ulp_def)
    have "x / ulp y \<le> y / ulp y" using assms(2) by (intro divide_right_mono) simp_all
    then have "round_half_even (x / ulp y) \<le> round_half_even (y / ulp y)" by (rule rhe_mono)
    then show ?thesis by (simp add: nearest_def u)
  next
    case False
    then have lt: "binade x + 1 \<le> binade y" using le by simp
    then have big: "- 1022 < binade y" using binade_ge [of x] by linarith
    have "nearest x \<le> \<bar>nearest x\<bar>" by simp
    also have "\<dots> \<le> 2 powi (binade x + 1)" by (rule nearest_upper)
    also have "\<dots> \<le> 2 powi binade y" by (intro power_int_increasing) (use lt in simp_all)
    also have "\<dots> \<le> \<bar>nearest y\<bar>" by (rule nearest_lower [OF big])
    also have "\<dots> = nearest y" using nearest_nonneg [of y] assms by simp
    finally show ?thesis .
  qed
qed

lemma nearest_mono:
  assumes "x \<le> y"
  shows "nearest x \<le> nearest y"
proof -
  consider "0 \<le> x" | "x < 0" "0 \<le> y" | "y < 0" using assms by linarith
  then show ?thesis
  proof cases
    case 1
    then show ?thesis using assms by (rule nearest_mono_pos)
  next
    case 2
    have "nearest (- x) \<ge> 0" using 2 by (intro nearest_nonneg) simp
    then have "nearest x \<le> 0" by (simp add: nearest_minus)
    then show ?thesis using nearest_nonneg [OF 2(2)] by linarith
  next
    case 3
    have "nearest (- y) \<le> nearest (- x)" by (rule nearest_mono_pos) (use 3 assms in simp_all)
    then show ?thesis by (simp add: nearest_minus)
  qed
qed

lemma to_double_mono:
  assumes "x \<le> y"
  shows "\<not> js_lt (to_double y) (to_double x)"
  using nearest_mono [OF assms] by (simp add: to_double_def Let_def)


subsection \<open>Numbers that rounding leaves unchanged\<close>

text \<open>
  An integer below \<open>2^53\<close> in magnitude times a power of two, within the exponent range,
  is a double.
\<close>

lemma nearest_exact:
  assumes "x / ulp x = of_int n"
  shows "nearest x = x"
proof -
  have "nearest x = of_int n * ulp x" by (simp add: nearest_def assms)
  also have "\<dots> = x / ulp x * ulp x" by (simp add: assms)
  also have "\<dots> = x" by simp
  finally show ?thesis .
qed

lemma powi_less_imp: "(2 :: real) powi a < 2 powi b \<Longrightarrow> a < b"
  by (rule ccontr) (use power_int_increasing [of b a "2 :: real"] in simp)

lemma nearest_dyadic:
  assumes "\<bar>m\<bar> < 2 ^ 53" "- 1074 \<le> e"
  shows "nearest (of_int m * 2 powi e) = of_int m * 2 powi e"
proof (cases "m = 0")
  case True
  then show ?thesis by simp
next
  case False
  define x where "x = real_of_int m * 2 powi e"
  have nz: "x \<noteq> 0" using False by (simp add: x_def)
  have ax: "\<bar>x\<bar> = of_int \<bar>m\<bar> * 2 powi e" by (simp add: x_def abs_mult)
  have "real_of_int \<bar>m\<bar> < of_int (2 ^ 53)" using assms(1) by (simp only: of_int_less_iff)
  then have "\<bar>x\<bar> < of_int (2 ^ 53) * 2 powi e" unfolding ax by (intro mult_strict_right_mono) simp_all
  also have "\<dots> = 2 powi (53 + e)" by (simp add: power_int_add)
  finally have up: "\<bar>x\<bar> < 2 powi (53 + e)" .
  have le: "binade x - 52 \<le> e"
  proof (cases "- 1022 < binade x")
    case True
    have "2 powi binade x \<le> \<bar>x\<bar>" by (rule binade_lower [OF True])
    then have "(2 :: real) powi binade x < 2 powi (53 + e)" using up by linarith
    then have "binade x < 53 + e" by (rule powi_less_imp)
    then show ?thesis by simp
  next
    case False
    then have "binade x = - 1022" using binade_ge [of x] by linarith
    then show ?thesis using assms(2) by simp
  qed
  define k where "k = nat (e - (binade x - 52))"
  have e: "e = (binade x - 52) + int k" using le by (simp add: k_def)
  have "x / ulp x = of_int m * (2 powi e / 2 powi (binade x - 52))"
    by (simp add: x_def ulp_def)
  also have "2 powi e / 2 powi (binade x - 52) = (2 :: real) ^ k"
    by (subst e) (simp add: power_int_add)
  finally have "x / ulp x = of_int (m * 2 ^ k)" by simp
  then show ?thesis unfolding x_def [symmetric] by (rule nearest_exact)
qed

lemma to_double_dyadic:
  assumes "\<bar>m\<bar> < 2 ^ 53" "- 1074 \<le> e" "e \<le> 971"
  shows "to_double (of_int m * 2 powi e) = Fin (of_int m * 2 powi e)"
proof -
  have "real_of_int \<bar>m\<bar> < of_int (2 ^ 53)" using assms(1) by (simp only: of_int_less_iff)
  then have m: "real_of_int \<bar>m\<bar> < 2 ^ 53" by simp
  have "(2 :: real) powi e \<le> 2 powi 971" by (intro power_int_increasing) (use assms(3) in simp_all)
  then have e: "(2 :: real) powi e \<le> 2 ^ 971" by simp
  have "\<bar>real_of_int m * 2 powi e\<bar> = real_of_int \<bar>m\<bar> * 2 powi e" by (simp add: abs_mult)
  also have "\<dots> < 2 ^ 53 * 2 ^ 971"
    by (intro mult_less_le_imp_less) (use m e in simp_all)
  also have "\<dots> = (2 :: real) ^ 1024" by (simp add: power_add [symmetric])
  finally have "\<bar>real_of_int m * 2 powi e\<bar> < 2 ^ 1024" .
  then show ?thesis
    unfolding to_double_def Let_def nearest_dyadic [OF assms(1,2)] by (simp add: abs_if split: if_splits)
qed

lemma to_double_int:
  assumes "\<bar>m\<bar> < 2 ^ 53"
  shows "to_double (of_int m) = Fin (of_int m)"
  using to_double_dyadic [OF assms, of 0] by simp


subsection \<open>Evaluating a rounding\<close>

lemma rhe_near:
  assumes "\<bar>t - of_int m\<bar> < 1 / 2"
  shows "round_half_even t = m"
proof -
  have e: "\<bar>of_int (round_half_even t) - t\<bar> \<le> 1 / 2" by (rule rhe_error)
  have "\<bar>real_of_int (round_half_even t) - of_int m\<bar> < 1" using assms e by linarith
  then have "\<bar>real_of_int (round_half_even t - m)\<bar> < 1" by simp
  then have "\<bar>round_half_even t - m\<bar> < 1" by linarith
  then show ?thesis by simp
qed

lemma nearest_eval:
  assumes "2 powi e \<le> \<bar>x\<bar>" "\<bar>x\<bar> < 2 powi (e + 1)" "- 1022 \<le> e"
    and "round_half_even (x / 2 powi (e - 52)) = m"
  shows "nearest x = of_int m * 2 powi (e - 52)"
  using assms(4) by (simp add: nearest_def ulp_def binade_eq [OF assms(1,2,3)])

lemma to_double_eval:
  assumes "2 powi e \<le> \<bar>x\<bar>" "\<bar>x\<bar> < 2 powi (e + 1)" "- 1022 \<le> e" "e < 1023"
    and "round_half_even (x / 2 powi (e - 52)) = m"
  shows "to_double x = Fin (of_int m * 2 powi (e - 52))"
proof -
  have b: "binade x = e" by (rule binade_eq [OF assms(1,2,3)])
  have "\<bar>nearest x\<bar> \<le> 2 powi (e + 1)" using nearest_upper [of x] unfolding b .
  also have "\<dots> \<le> 2 powi 1023" by (intro power_int_increasing) (use assms(4) in simp_all)
  also have "\<dots> < 2 ^ 1024" by simp
  finally have "\<bar>nearest x\<bar> < 2 ^ 1024" .
  then have "to_double x = Fin (nearest x)"
    by (simp add: to_double_def Let_def abs_if split: if_splits)
  then show ?thesis using nearest_eval [OF assms(1,2,3,5)] by simp
qed

subsection \<open>The error of a rounding, and the difference of two doubles\<close>

lemma nearest_error: "\<bar>nearest x - x\<bar> \<le> ulp x / 2"
proof -
  have "nearest x - x = (of_int (round_half_even (x / ulp x)) - x / ulp x) * ulp x"
    by (simp add: nearest_def algebra_simps)
  then have "\<bar>nearest x - x\<bar> = \<bar>of_int (round_half_even (x / ulp x)) - x / ulp x\<bar> * ulp x"
    by (simp add: abs_mult)
  also have "\<dots> \<le> 1 / 2 * ulp x"
    by (intro mult_right_mono rhe_error) simp
  finally show ?thesis by simp
qed

lemma is_double_nearest: "is_double x \<Longrightarrow> nearest x = x"
  by (simp add: is_double_def to_double_def Let_def split: if_splits)

lemma double_grid:
  assumes "is_double x" "e = - 1074"
  shows "\<exists>m :: int. x = of_int m * 2 powi e"
proof -
  define k where "k = nat (binade x + 1022)"
  have b: "binade x - 52 = e + int k" using binade_ge [of x] by (simp add: k_def assms(2))
  have "ulp x = 2 ^ k * 2 powi e"
    unfolding ulp_def b by (simp add: power_int_add)
  then have "nearest x = of_int (round_half_even (x / ulp x) * 2 ^ k) * 2 powi e"
    by (simp add: nearest_def)
  then show ?thesis using is_double_nearest [OF assms(1)] by metis
qed

lemma double_difference:
  assumes "is_double a" "is_double b" "a < b"
  shows "0 < nearest (b - a)"
proof -
  define e :: int where "e = - 1074"
  obtain m n :: int where a: "a = of_int m * 2 powi e" and b: "b = of_int n * 2 powi e"
    using double_grid [OF _ e_def] assms(1,2) by blast
  have pos: "(0 :: real) < 2 powi e" by simp
  have "real_of_int m * 2 powi e < real_of_int n * 2 powi e" using assms(3) a b by simp
  then have "real_of_int m < real_of_int n" using pos by (simp only: mult_less_cancel_right_pos)
  then have "m + 1 \<le> n" by simp
  then have "real_of_int 1 \<le> real_of_int (n - m)" by (simp only: of_int_le_iff)
  then have "real_of_int 1 * 2 powi e \<le> real_of_int (n - m) * 2 powi e"
    by (intro mult_right_mono) simp_all
  then have le: "real_of_int 1 * 2 powi e \<le> b - a" by (simp add: a b algebra_simps)
  have "nearest (of_int 1 * 2 powi e) = of_int 1 * 2 powi e"
    by (rule nearest_dyadic) (simp_all add: e_def)
  then have "2 powi e \<le> nearest (b - a)" using nearest_mono [OF le] by simp
  then show ?thesis using pos by linarith
qed


subsection \<open>Small numbers and signs\<close>

lemma to_double_0 [simp]: "to_double 0 = Fin 0"
  by (simp add: to_double_def)

lemma to_double_numeral [simp]:
  "(numeral n :: int) < 2 ^ 53 \<Longrightarrow> to_double (numeral n) = Fin (numeral n)"
  using to_double_int [of "numeral n"] by simp

lemma to_double_neg_numeral [simp]:
  "(numeral n :: int) < 2 ^ 53 \<Longrightarrow> to_double (- numeral n) = Fin (- numeral n)"
  using to_double_int [of "- numeral n"] by simp

lemma to_double_1 [simp]: "to_double 1 = Fin 1"
  using to_double_int [of 1] by simp

lemma to_double_neg_1 [simp]: "to_double (- 1) = Fin (- 1)"
  using to_double_int [of "- 1"] by simp

lemma to_double_not_NaN [simp]: "to_double x \<noteq> NaN"
  by (simp add: to_double_def Let_def)

lemma to_double_nonneg: "0 \<le> x \<Longrightarrow> not_negative (to_double x)"
  using nearest_nonneg [of x] by (simp add: to_double_def Let_def)

lemma js_mul_self: "not_negative (js_mul a a)"
  by (cases a) (simp_all add: to_double_nonneg)

lemma js_add_not_negative:
  "not_negative a \<Longrightarrow> not_negative b \<Longrightarrow> not_negative (js_add a b)"
  by (cases a; cases b) (simp_all add: to_double_nonneg)

subsection \<open>The literals \<open>-0.8\<close> and \<open>1e-6\<close>\<close>

lemma rhe_neg08: "round_half_even (- (8 / 10) / 2 powi (- 1 - 52)) = - 7205759403792794"
  by (rule rhe_near) simp

lemma lit_neg08: "lit_minus_0_8 = Fin (- (7205759403792794 / 2 ^ 53))"
  unfolding lit_minus_0_8_def
  using to_double_eval [of "- 1" "- (8 / 10)" "- 7205759403792794", OF _ _ _ _ rhe_neg08] by simp

lemma rhe_1e6: "round_half_even (1 / 1000000 / 2 powi (- 20 - 52)) = 4722366482869645"
  by (rule rhe_near) simp

lemma lit_1e6: "lit_1e_6 = Fin (4722366482869645 / 2 ^ 72)"
  unfolding lit_1e_6_def
  using to_double_eval [of "- 20" "1 / 1000000" 4722366482869645, OF _ _ _ _ rhe_1e6] by simp

subsection \<open>Rounded square roots and quotients\<close>

lemma sqrt_between:
  assumes "0 \<le> a" "a * a < x" "x < b * b" "0 < b"
  shows "a < sqrt x \<and> sqrt x < b"
proof
  have "a\<^sup>2 < x" using assms(2) by (simp add: power2_eq_square)
  then show "a < sqrt x" by (rule real_less_rsqrt)
  have "x < b\<^sup>2" using assms(3) by (simp add: power2_eq_square)
  then show "sqrt x < b" using assms(4) by (intro real_less_lsqrt) simp_all
qed

lemma rhe_between:
  assumes "0 < u" "(of_int m - 1 / 2) * u < x" "x < (of_int m + 1 / 2) * u"
  shows "round_half_even (x / u) = m"
proof (rule rhe_near)
  have "of_int m - 1 / 2 < x / u" "x / u < of_int m + 1 / 2"
    using assms by (simp_all add: pos_less_divide_eq pos_divide_less_eq)
  then show "\<bar>x / u - real_of_int m\<bar> < 1 / 2" by linarith
qed

lemma rhe_sqrt:
  assumes "0 < u" "1 / 2 \<le> real_of_int m"
    and "((of_int m - 1 / 2) * u) * ((of_int m - 1 / 2) * u) < x"
    and "x < ((of_int m + 1 / 2) * u) * ((of_int m + 1 / 2) * u)"
  shows "round_half_even (sqrt x / u) = m"
proof -
  have "(of_int m - 1 / 2) * u < sqrt x \<and> sqrt x < (of_int m + 1 / 2) * u"
    by (rule sqrt_between) (use assms in \<open>simp_all add: mult_pos_pos add_pos_nonneg\<close>)
  then show ?thesis using rhe_between [OF assms(1)] by blast
qed

lemma to_double_div_pow2:
  assumes "\<bar>m\<bar> < 2 ^ 53" "k \<le> 1074"
  shows "to_double (real_of_int m / 2 ^ k) = Fin (real_of_int m / 2 ^ k)"
proof -
  have "real_of_int m * 2 powi (- int k) = real_of_int m / 2 ^ k"
    by (simp add: power_int_minus divide_inverse)
  then show ?thesis using to_double_dyadic [OF assms(1), of "- int k"] assms(2) by simp
qed

lemma to_double_eval_near:
  assumes "2 powi e \<le> \<bar>x\<bar>" "\<bar>x\<bar> < 2 powi (e + 1)" "- 1022 \<le> e" "e < 1023"
    and "\<bar>x / 2 powi (e - 52) - of_int m\<bar> < 1 / 2"
  shows "to_double x = Fin (of_int m * 2 powi (e - 52))"
  by (rule to_double_eval [OF assms(1,2,3,4) rhe_near [OF assms(5)]])

subsection \<open>Rounding twice, doubling, and the relative error\<close>

lemma nearest_int:
  assumes "\<bar>m\<bar> < 2 ^ 53"
  shows "nearest (of_int m) = of_int m"
  using nearest_dyadic [OF assms, of 0] by simp

lemma nearest_numeral [simp]:
  "(numeral n :: int) < 2 ^ 53 \<Longrightarrow> nearest (numeral n) = numeral n"
  using nearest_int [of "numeral n"] by simp

lemma nearest_1 [simp]: "nearest 1 = 1"
  using nearest_int [of 1] by simp

lemma nearest_repr:
  "\<exists>k e. \<bar>k\<bar> < 2 ^ 53 \<and> - 1074 \<le> e \<and> nearest x = of_int k * 2 powi e"
proof -
  define k0 where "k0 = round_half_even (x / ulp x)"
  define b where "b = binade x"
  have n: "nearest x = of_int k0 * 2 powi (b - 52)"
    by (simp add: nearest_def ulp_def k0_def b_def)
  have b: "- 1074 \<le> b - 52" using binade_ge [of x] by (simp add: b_def)
  have "\<bar>nearest x\<bar> \<le> 2 powi (b + 1)" unfolding b_def by (rule nearest_upper)
  also have "(2 :: real) powi (b + 1) = of_int (2 ^ 53) * 2 powi (b - 52)"
    by (simp add: power_int_diff power_int_add)
  finally have "\<bar>nearest x\<bar> \<le> real_of_int (2 ^ 53) * 2 powi (b - 52)" .
  moreover have "\<bar>nearest x\<bar> = \<bar>real_of_int k0\<bar> * 2 powi (b - 52)"
    by (simp add: n abs_mult)
  moreover have "(0 :: real) < 2 powi (b - 52)" by simp
  ultimately have "\<bar>real_of_int k0\<bar> \<le> real_of_int (2 ^ 53)"
    by (simp only: mult_le_cancel_right_pos)
  then have "real_of_int \<bar>k0\<bar> \<le> of_int (2 ^ 53)" by simp
  then have le: "\<bar>k0\<bar> \<le> 2 ^ 53" by (simp only: of_int_le_iff)
  consider "\<bar>k0\<bar> < 2 ^ 53" | "k0 = 2 ^ 53" | "k0 = - (2 ^ 53)" using le by linarith
  then show ?thesis
  proof cases
    case 1
    then show ?thesis using n b by blast
  next
    case 2
    have "nearest x = of_int 1 * 2 powi (b + 1)"
      unfolding n 2 by (simp add: power_int_diff power_int_add)
    moreover have "- 1074 \<le> b + 1" using b by simp
    ultimately show ?thesis by (intro exI [of _ 1] exI [of _ "b + 1"]) simp
  next
    case 3
    have "nearest x = of_int (- 1) * 2 powi (b + 1)"
      unfolding n 3 by (simp add: power_int_diff power_int_add)
    moreover have "- 1074 \<le> b + 1" using b by simp
    ultimately show ?thesis by (intro exI [of _ "- 1"] exI [of _ "b + 1"]) simp
  qed
qed

lemma nearest_idem [simp]: "nearest (nearest x) = nearest x"
proof -
  obtain k e where "\<bar>k\<bar> < 2 ^ 53" "- 1074 \<le> e" "nearest x = of_int k * 2 powi e"
    using nearest_repr by blast
  then show ?thesis using nearest_dyadic [of k e] by simp
qed

lemma nearest_twice:
  assumes "nearest m = m"
  shows "nearest (2 * m) = 2 * m"
proof -
  obtain k e where k: "\<bar>k\<bar> < 2 ^ 53" "- 1074 \<le> e" "nearest m = of_int k * 2 powi e"
    using nearest_repr by blast
  have "2 * m = of_int k * 2 powi (e + 1)"
    using k(3) assms by (simp add: power_int_add)
  moreover have "- 1074 \<le> e + 1" using k(2) by simp
  ultimately show ?thesis using nearest_dyadic [OF k(1), of "e + 1"] by simp
qed

lemma nearest_between:
  assumes "m \<le> x" "x \<le> M" "nearest m = m" "nearest M = M"
  shows "m \<le> nearest x \<and> nearest x \<le> M"
  using nearest_mono [OF assms(1)] nearest_mono [OF assms(2)] assms(3,4) by simp

lemma nearest_relative_error:
  assumes "2 powi (- 1022) \<le> \<bar>x\<bar>"
  shows "\<bar>nearest x - x\<bar> \<le> \<bar>x\<bar> / 2 ^ 53"
proof -
  have low: "2 powi binade x \<le> \<bar>x\<bar>"
  proof (cases "- 1022 < binade x")
    case True
    then show ?thesis by (rule binade_lower)
  next
    case False
    then have "binade x = - 1022" using binade_ge [of x] by linarith
    then show ?thesis using assms by simp
  qed
  have "ulp x / 2 = 2 powi binade x / 2 ^ 53"
    by (simp add: ulp_def power_int_diff)
  also have "\<dots> \<le> \<bar>x\<bar> / 2 ^ 53" using low by (simp add: divide_right_mono)
  finally show ?thesis using nearest_error [of x] by linarith
qed

lemma to_double_small:
  assumes "\<bar>x\<bar> \<le> 2 ^ 53"
  shows "to_double x = Fin (nearest x)"
proof -
  have "- (2 ^ 53) \<le> x" "x \<le> 2 ^ 53" using assms by (simp_all add: abs_le_iff)
  then have "nearest (- (2 ^ 53)) \<le> nearest x" "nearest x \<le> nearest (2 ^ 53)"
    by (simp_all add: nearest_mono)
  moreover have "nearest (2 ^ 53) = (2 :: real) ^ 53"
    using nearest_dyadic [of 1 53] by simp
  moreover have "nearest (- (2 ^ 53)) = - ((2 :: real) ^ 53)"
    using nearest_dyadic [of "- 1" 53] by simp
  ultimately have "- (2 ^ 53) \<le> nearest x" "nearest x \<le> 2 ^ 53" by simp_all
  then show ?thesis by (simp add: to_double_def Let_def)
qed

subsection \<open>The average of two doubles\<close>

text \<open>
  Halving is exact above the subnormal range, and the sum of two doubles is exact within
  it. So adding two doubles and halving the sum, each time with a rounding, gives the
  double nearest to their exact average: the roundings of the two steps amount to one.
\<close>

lemma nearest_half:
  assumes "- 1022 < binade s"
  shows "nearest (s / 2) = nearest s / 2"
proof -
  define b where "b = binade s"
  have lo: "2 powi b \<le> \<bar>s\<bar>" unfolding b_def by (rule binade_lower [OF assms])
  have p: "(0 :: real) < 2 powi b" by (rule zero_less_power_int) simp
  have nz: "s \<noteq> 0"
  proof
    assume "s = 0"
    then have "2 powi b \<le> (0 :: real)" using lo by simp
    then show False using p by linarith
  qed
  have up: "\<bar>s\<bar> < 2 powi (b + 1)" unfolding b_def by (rule binade_upper [OF nz])
  have "(2 :: real) powi (b - 1) = 2 powi b / 2" by (simp add: power_int_diff)
  then have 1: "2 powi (b - 1) \<le> \<bar>s / 2\<bar>" using lo by simp
  have "(2 :: real) powi (b - 1 + 1) = 2 powi (b + 1) / 2" by (simp add: power_int_add)
  then have 2: "\<bar>s / 2\<bar> < 2 powi (b - 1 + 1)" using up by simp
  have 3: "- 1022 \<le> b - 1" using assms by (simp add: b_def)
  have bh: "binade (s / 2) = b - 1" by (rule binade_eq [OF 1 2 3])
  have u: "ulp (s / 2) = ulp s / 2"
    by (simp add: ulp_def bh b_def [symmetric] power_int_diff)
  have "s / 2 / (ulp s / 2) = s / ulp s" by simp
  then show ?thesis by (simp add: nearest_def u)
qed

lemma nearest_multiple:
  assumes "e = - 1074"
  shows "\<exists>k :: int. nearest x = of_int k * 2 powi e"
proof -
  obtain k0 e0 where k: "- 1074 \<le> e0" "nearest x = of_int k0 * 2 powi e0"
    using nearest_repr [of x] by blast
  define n where "n = nat (e0 - e)"
  have e0: "e0 = e + int n" using k(1) by (simp add: n_def assms)
  have "nearest x = of_int (k0 * 2 ^ n) * 2 powi e"
    unfolding k(2) e0 by (simp add: power_int_add)
  then show ?thesis by blast
qed

lemma rounded_average_pair:
  assumes "nearest a = a" "nearest b = b"
  shows "nearest (nearest (nearest (0 + a) + b) / 2) = nearest ((a + b) / 2)"
proof -
  define s where "s = a + b"
  have "nearest (nearest s / 2) = nearest (s / 2)"
  proof (cases "- 1022 < binade s")
    case True
    have "nearest (nearest s / 2) = nearest (nearest (s / 2))"
      by (simp only: nearest_half [OF True])
    also have "\<dots> = nearest (s / 2)" by (rule nearest_idem)
    finally show ?thesis .
  next
    case False
    then have bs: "binade s = - 1022" using binade_ge [of s] by linarith
    define e :: int where "e = - 1074"
    obtain ka kb :: int where "nearest a = of_int ka * 2 powi e" "nearest b = of_int kb * 2 powi e"
      using nearest_multiple [OF e_def] by blast
    then have s: "s = of_int (ka + kb) * 2 powi e"
      using assms by (simp add: s_def algebra_simps)
    have "\<bar>ka + kb\<bar> < 2 ^ 53"
    proof (cases "s = 0")
      case True
      then have "real_of_int (ka + kb) = 0" using s by simp
      then show ?thesis by simp
    next
      case False
      have "\<bar>s\<bar> < 2 powi (binade s + 1)" by (rule binade_upper [OF False])
      also have "\<dots> = of_int (2 ^ 53) * 2 powi e" by (simp add: bs e_def)
      finally have "\<bar>real_of_int (ka + kb)\<bar> * 2 powi e < real_of_int (2 ^ 53) * 2 powi e"
        by (simp add: s abs_mult)
      moreover have "(0 :: real) < 2 powi e" by simp
      ultimately have "\<bar>real_of_int (ka + kb)\<bar> < real_of_int (2 ^ 53)"
        by (simp only: mult_less_cancel_right_pos)
      then have "real_of_int \<bar>ka + kb\<bar> < real_of_int (2 ^ 53)" by simp
      then show ?thesis by (simp only: of_int_less_iff)
    qed
    then have "nearest s = s"
      unfolding s by (rule nearest_dyadic) (simp add: e_def)
    then show ?thesis by simp
  qed
  then show ?thesis using assms(1) by (simp add: s_def)
qed
section \<open>Properties of the game object index\<close>

lemma index_row_resolved:
  assumes "index_resolved idTable db"
  shows "index_resolved idTable (index_row idTable db row)"
proof (cases "idTable (DisplayID row)")
  case None
  then show ?thesis using assms by (simp add: index_row_def)
next
  case (Some fid)
  have r: "resolved idTable (row\<lparr>FileDataID := Some fid\<rparr>)"
    using Some by (simp add: resolved_def)
  show ?thesis
  proof (cases "db (OwnerID row)")
    case None
    then show ?thesis
      using assms Some r by (auto simp: index_row_def index_resolved_def)
  next
    case (Some m)
    then show ?thesis
      using assms \<open>idTable (DisplayID row) = Some fid\<close> r
      by (auto simp: index_row_def index_resolved_def)
  qed
qed

lemma foldl_index_row_resolved:
  "index_resolved idTable db \<Longrightarrow> index_resolved idTable (foldl (index_row idTable) db rows)"
  by (induction rows arbitrary: db) (simp_all add: index_row_resolved)

lemma build_index_resolved: "index_resolved idTable (build_index objTable idTable)"
  unfolding build_index_def
  by (rule foldl_index_row_resolved) (simp add: index_resolved_def)

lemma index_row_from_table:
  assumes "\<forall>k ms. db k = Some ms \<longrightarrow> (\<forall>obj \<in> set ms. OwnerID obj = k \<and> P obj)"
    and "\<And>fid. idTable (DisplayID row) = Some fid \<Longrightarrow> P (row\<lparr>FileDataID := Some fid\<rparr>)"
  shows "\<forall>k ms. index_row idTable db row k = Some ms \<longrightarrow> (\<forall>obj \<in> set ms. OwnerID obj = k \<and> P obj)"
  using assms
  by (auto simp: index_row_def Let_def split: option.splits if_splits)

lemma foldl_index_row_from_table:
  assumes "\<forall>k ms. db k = Some ms \<longrightarrow> (\<forall>obj \<in> set ms. OwnerID obj = k \<and> P obj)"
    and "\<And>row fid. row \<in> set rows \<Longrightarrow> idTable (DisplayID row) = Some fid
           \<Longrightarrow> P (row\<lparr>FileDataID := Some fid\<rparr>)"
  shows "\<forall>k ms. foldl (index_row idTable) db rows k = Some ms
           \<longrightarrow> (\<forall>obj \<in> set ms. OwnerID obj = k \<and> P obj)"
  using assms
proof (induction rows arbitrary: db)
  case Nil
  then show ?case by simp
next
  case (Cons r rows)
  have step: "\<forall>k ms. index_row idTable db r k = Some ms
                \<longrightarrow> (\<forall>obj \<in> set ms. OwnerID obj = k \<and> P obj)"
    by (rule index_row_from_table) (use Cons.prems in auto)
  show ?case
    using Cons.IH [OF step] Cons.prems(2) by simp
qed


lemma build_index_from_table:
  "\<forall>k ms. build_index objTable idTable k = Some ms \<longrightarrow>
     (\<forall>obj \<in> set ms. OwnerID obj = k \<and>
        (\<exists>row \<in> set objTable. \<exists>fid. idTable (DisplayID row) = Some fid
           \<and> obj = row\<lparr>FileDataID := Some fid\<rparr>))"
  unfolding build_index_def
  by (rule foldl_index_row_from_table) auto

lemma collect_subset_index:
  assumes "collectGameObjects cache objTable idTable mapID flt = (res, cache')"
    and "obj \<in> set res"
  shows "\<exists>db ms. cache' = Some db \<and> db mapID = Some ms \<and> obj \<in> set ms"
  using assms
  by (auto simp: collectGameObjects_def Let_def split: option.splits)

text \<open>
  Claim C8. Whatever the map identifier and the predicate, an object returned by
  \<open>collectGameObjects\<close> has a display identifier that resolved, and carries the file data
  identifier found for it. The index built on the first call holds, under every owner key,
  only images of table rows whose display identifier resolved; a row whose
  \<open>DisplayID\<close> has no row in GameObjectDisplayInfo is under no key (rows are told apart by
  their row identifier, which is the key of \<open>getAllRows()\<close> and so distinct). The cache
  is either empty or the index a previous call built.
\<close>

theorem collectGameObjects_never_unresolved:
  assumes cache: "cache = None \<or> cache = Some (build_index objTable idTable)"
    and ids: "distinct (map RowID objTable)"
  shows "list_all (resolved idTable) (fst (collectGameObjects cache objTable idTable mapID flt))
    \<and> snd (collectGameObjects cache objTable idTable mapID flt) = Some (build_index objTable idTable)
    \<and> (\<forall>row \<in> set objTable. idTable (DisplayID row) = None \<longrightarrow>
          (\<forall>k ms. build_index objTable idTable k = Some ms \<longrightarrow> RowID row \<notin> RowID ` set ms)
          \<and> RowID row \<notin> RowID ` set (fst (collectGameObjects cache objTable idTable mapID flt)))"
proof -
  let ?db = "build_index objTable idTable"
  let ?res = "fst (collectGameObjects cache objTable idTable mapID flt)"
  have snd_eq: "snd (collectGameObjects cache objTable idTable mapID flt) = Some ?db"
    using cache by (auto simp: collectGameObjects_def Let_def)
  have sub: "\<exists>ms. ?db mapID = Some ms \<and> obj \<in> set ms" if "obj \<in> set ?res" for obj
    using collect_subset_index [of cache objTable idTable mapID flt ?res "Some ?db" obj] that snd_eq
    by (metis option.inject prod.collapse)
  have res: "list_all (resolved idTable) ?res"
  proof -
    have "resolved idTable obj" if mem: "obj \<in> set ?res" for obj
    proof -
      obtain ms where "?db mapID = Some ms" "obj \<in> set ms" using sub [OF mem] by blast
      then show ?thesis
        using build_index_resolved [of idTable objTable]
        by (auto simp: index_resolved_def list_all_iff)
    qed
    then show ?thesis by (simp add: list_all_iff)
  qed
  have excl: "RowID row \<notin> RowID ` set ms"
    if h: "row \<in> set objTable" "idTable (DisplayID row) = None" "?db k = Some ms" for row k ms
  proof
    assume "RowID row \<in> RowID ` set ms"
    then obtain obj where obj: "obj \<in> set ms" "RowID obj = RowID row" by auto
    obtain r fid where r: "r \<in> set objTable" "idTable (DisplayID r) = Some fid"
      "obj = r\<lparr>FileDataID := Some fid\<rparr>"
      using build_index_from_table [of objTable idTable] h(3) obj(1) by blast
    have "RowID r = RowID row" using r(3) obj(2) by simp
    then have "r = row"
      using ids r(1) h(1) by (meson distinct_map inj_onD)
    then show False using r(2) h(2) by simp
  qed
  have excl_res: "RowID row \<notin> RowID ` set ?res"
    if h: "row \<in> set objTable" "idTable (DisplayID row) = None" for row
  proof
    assume "RowID row \<in> RowID ` set ?res"
    then obtain obj where obj: "obj \<in> set ?res" "RowID obj = RowID row" by auto
    obtain ms where ms: "?db mapID = Some ms" "obj \<in> set ms" using sub [OF obj(1)] by blast
    have "RowID row \<notin> RowID ` set ms" by (rule excl [OF h ms(1)])
    moreover have "RowID row \<in> RowID ` set ms"
      using ms(2) obj(2) by (metis imageI)
    ultimately show False by simp
  qed
  show ?thesis using res snd_eq excl excl_res by blast
qed

text \<open>
  A witness: two objects owned by map 7; the display identifier of the first resolves, the
  second's does not. With a predicate that accepts everything only the first is returned.
\<close>

theorem collectGameObjects_never_unresolved_witness:
  "distinct (map RowID
      [\<lparr>RowID = 1, DisplayID = 10, OwnerID = 7, Pos = (0, 0), FileDataID = None\<rparr>,
       \<lparr>RowID = 2, DisplayID = 11, OwnerID = 7, Pos = (1, 1), FileDataID = None\<rparr>])
   \<and> fst (collectGameObjects None
      [\<lparr>RowID = 1, DisplayID = 10, OwnerID = 7, Pos = (0, 0), FileDataID = None\<rparr>,
       \<lparr>RowID = 2, DisplayID = 11, OwnerID = 7, Pos = (1, 1), FileDataID = None\<rparr>]
      [10 \<mapsto> 500] 7 (Some (\<lambda>obj. True)))
     = [\<lparr>RowID = 1, DisplayID = 10, OwnerID = 7, Pos = (0, 0), FileDataID = Some 500\<rparr>]
   \<and> list_all (resolved [10 \<mapsto> 500]) (fst (collectGameObjects None
      [\<lparr>RowID = 1, DisplayID = 10, OwnerID = 7, Pos = (0, 0), FileDataID = None\<rparr>,
       \<lparr>RowID = 2, DisplayID = 11, OwnerID = 7, Pos = (1, 1), FileDataID = None\<rparr>]
      [10 \<mapsto> 500] 7 (Some (\<lambda>obj. True))))"
  using collectGameObjects_never_unresolved
    [of None "[\<lparr>RowID = 1, DisplayID = 10, OwnerID = 7, Pos = (0, 0), FileDataID = None\<rparr>,
       \<lparr>RowID = 2, DisplayID = 11, OwnerID = 7, Pos = (1, 1), FileDataID = None\<rparr>]"
       "[10 \<mapsto> 500]" 7 "Some (\<lambda>obj. True)"]
  by (simp add: collectGameObjects_def build_index_def index_row_def)

text \<open>
  Claim C9. Called with no predicate (\<open>filter\<close> undefined), \<open>collectGameObjects\<close> returns the
  empty set, whatever the cache, the tables and the map identifier: the test
  \<open>filter !== undefined && filter(obj)\<close> admits no object.
\<close>

theorem collectGameObjects_undefined_filter_empty:
  "fst (collectGameObjects cache objTable idTable mapID None) = []"
  by (simp add: collectGameObjects_def Let_def split: option.splits)

text \<open>
  The index of that call is not empty for the map: the same tables and map identifier with
  an accepting predicate return an object, with no predicate none.
\<close>

lemma collectGameObjects_undefined_filter_example:
  "build_index [\<lparr>RowID = 1, DisplayID = 10, OwnerID = 7, Pos = (0, 0), FileDataID = None\<rparr>]
      [10 \<mapsto> 500] 7
     = Some [\<lparr>RowID = 1, DisplayID = 10, OwnerID = 7, Pos = (0, 0), FileDataID = Some 500\<rparr>]
   \<and> fst (collectGameObjects None
      [\<lparr>RowID = 1, DisplayID = 10, OwnerID = 7, Pos = (0, 0), FileDataID = None\<rparr>]
      [10 \<mapsto> 500] 7 None) = []"
  by (simp add: collectGameObjects_def build_index_def index_row_def)

section \<open>Properties of FaceCuller.cullBackFaces\<close>

subsection \<open>Index lists and triples\<close>

lemmas cull_defs = cullBackFaces_def cull_triangles_def cull_step_def cull_result_def malformed_def
      tri_key_def face_normal_def vertex_def edge_def cross_def normalLength_def normalize_def
      dotProduct_def score_def Let_def degenerate_def unit_normal_def
      lit_1e6 lit_neg08


lemma triples_of_flat [simp]: "triples_of (flat ts) = Some ts"
  by (induction ts rule: flat.induct) simp_all

lemma flat_eq_Nil [simp]: "flat ts = [] \<longleftrightarrow> ts = []"
  by (cases ts rule: flat.cases) simp_all

lemma triples_of_Some_flat: "triples_of idx = Some ts \<Longrightarrow> idx = flat ts"
  by (induction idx arbitrary: ts rule: triples_of.induct) auto

lemma length_flat [simp]: "length (flat ts) = 3 * length ts"
  by (induction ts rule: flat.induct) simp_all

lemma triples_of_total: "length idx mod 3 = 0 \<Longrightarrow> \<exists>ts. triples_of idx = Some ts"
proof (induction idx rule: triples_of.induct)
  case (2 i0 i1 i2 rest)
  have "length rest mod 3 = 0" using "2.prems" by (simp add: mod_Suc split: if_splits)
  then show ?case using "2.IH" by auto
qed simp_all

subsection \<open>The triangle map\<close>

lemma mset_update_le:
  "mset (map f (AList.update k v al)) \<subseteq># add_mset (f (k, v)) (mset (map f al))"
proof (induction al)
  case Nil
  then show ?case by simp
next
  case (Cons p al)
  show ?case
  proof (cases "fst p = k")
    case True
    then show ?thesis by (simp add: subset_mset.le_iff_add)
  next
    case False
    have "add_mset (f p) (mset (map f (AList.update k v al)))
            \<subseteq># add_mset (f p) (add_mset (f (k, v)) (mset (map f al)))"
      using Cons.IH by simp
    then show ?thesis using False by (simp add: add_mset_commute)
  qed
qed

lemma set_update_subset: "set (AList.update k v al) \<subseteq> insert (k, v) (set al)"
  by (induction al) auto

lemma map_of_update_other: "k' \<noteq> k \<Longrightarrow> map_of (AList.update k' v al) k = map_of al k"
  by (simp add: update_conv')

lemma map_of_update_same: "map_of (AList.update k v al) k = Some v"
  by (simp add: update_conv')

subsection \<open>One step of the scan\<close>

lemma cull_step_malformed:
  "malformed verts t \<Longrightarrow> cull_step verts st t = st\<lparr>culledIndices := culledIndices st @ [t]\<rparr>"
  by (simp add: cull_step_def)

lemma cull_step_mset:
  "mset (cull_result (cull_step verts st t)) \<subseteq># add_mset t (mset (cull_result st))"
proof -
  let ?c = "\<lparr>indices = t, normal = normalize (face_normal verts t)\<rparr>"
  let ?f = "\<lambda>(k, triangle). indices triangle"
  have upd: "mset (map ?f (AList.update (tri_key t) ?c (triangleMap st)))
               \<subseteq># add_mset t (mset (map ?f (triangleMap st)))"
    using mset_update_le [of ?f "tri_key t" ?c "triangleMap st"] by simp
  show ?thesis
    using upd
    by (auto simp: cull_step_def cull_result_def Let_def split: option.splits)
qed

lemma cull_fold_mset:
  "mset (cull_result (foldl (cull_step verts) st ts)) \<subseteq># mset (cull_result st) + mset ts"
proof (induction ts arbitrary: st)
  case Nil
  then show ?case by simp
next
  case (Cons t ts)
  have "mset (cull_result (foldl (cull_step verts) (cull_step verts st t) ts))
          \<subseteq># mset (cull_result (cull_step verts st t)) + mset ts"
    by (rule Cons.IH)
  also have "\<dots> \<subseteq># add_mset t (mset (cull_result st)) + mset ts"
    using cull_step_mset [of verts st t] by (simp add: subset_mset.add_right_mono)
  finally show ?case by simp
qed

lemma cull_triangles_mset: "mset (cull_triangles verts ts) \<subseteq># mset ts"
  using cull_fold_mset [of verts "\<lparr>culledIndices = [], triangleMap = []\<rparr>" ts]
  by (simp add: cull_triangles_def cull_result_def)

text \<open>
  Claim C10. For every index list whose length is a multiple of 3, \<open>cullBackFaces\<close> is
  conservative: it returns a list of whole triples, no longer than the input, and the
  emitted triples form a sub-multiset of the input's triples: every emitted triple is one
  of the input's, with its three indices in the input's order, and no triple is emitted
  more often than the input holds it.
\<close>

theorem cullBackFaces_conservative:
  assumes "length triangleIndices mod 3 = 0"
  shows "\<exists>ts out. triples_of triangleIndices = Some ts
           \<and> cullBackFaces triangleIndices verts = Some (flat out)
           \<and> length (flat out) mod 3 = 0
           \<and> length (flat out) \<le> length triangleIndices
           \<and> mset out \<subseteq># mset ts"
proof -
  obtain ts where ts: "triples_of triangleIndices = Some ts"
    using triples_of_total [OF assms] by blast
  let ?out = "cull_triangles verts ts"
  have flat_ts: "triangleIndices = flat ts" by (rule triples_of_Some_flat [OF ts])
  have m: "mset ?out \<subseteq># mset ts" by (rule cull_triangles_mset)
  then have "length ?out \<le> length ts" using size_mset_mono by fastforce
  then have len: "length (flat ?out) \<le> length triangleIndices" using flat_ts by simp
  have run: "cullBackFaces triangleIndices verts = Some (flat ?out)"
  proof (cases "triangleIndices = []")
    case True
    then have "ts = []" using ts by simp
    then show ?thesis using True
      by (simp add: cullBackFaces_def cull_triangles_def cull_result_def)
  next
    case False
    then show ?thesis using ts by (simp add: cullBackFaces_def)
  qed
  show ?thesis using ts run len m by auto
qed


theorem cullBackFaces_conservative_witness:
  "length [0,2,1, 0,1,2, 0,0,0 :: nat] mod 3 = 0
   \<and> cullBackFaces [0,2,1, 0,1,2, 0,0,0] (map Fin [0,0,0, 1,0,0, 0,1,0]) = Some [0,1,2]"
  using cullBackFaces_conservative [of "[0,2,1, 0,1,2, 0,0,0]" "map Fin [0,0,0, 1,0,0, 0,1,0]"]
  by (simp add: cull_defs)

subsection \<open>Malformed triples\<close>

lemma cull_step_wellformed:
  assumes "map_wellformed verts st"
  shows "map_wellformed verts (cull_step verts st t)"
proof -
  have "\<not> malformed verts (indices c)"
    if "\<not> malformed verts t" "(k, c) \<in> set (AList.update (tri_key t)
          \<lparr>indices = t, normal = normalize (face_normal verts t)\<rparr> (triangleMap st))" for k c
    using that assms set_update_subset [of "tri_key t"
          "\<lparr>indices = t, normal = normalize (face_normal verts t)\<rparr>" "triangleMap st"]
    by (auto simp: map_wellformed_def list_all_iff)
  then show ?thesis
    using assms
    by (auto simp: cull_step_def map_wellformed_def list_all_iff Let_def split: option.splits)
qed

lemma cull_step_filter_malformed:
  "filter (malformed verts) (culledIndices (cull_step verts st t))
     = filter (malformed verts) (culledIndices st) @ filter (malformed verts) [t]"
  by (auto simp: cull_step_def Let_def split: option.splits)

lemma cull_fold_malformed:
  assumes "map_wellformed verts st"
  shows "map_wellformed verts (foldl (cull_step verts) st ts)
     \<and> filter (malformed verts) (culledIndices (foldl (cull_step verts) st ts))
         = filter (malformed verts) (culledIndices st) @ filter (malformed verts) ts"
  using assms
proof (induction ts arbitrary: st)
  case Nil
  then show ?case by simp
next
  case (Cons t ts)
  have wf: "map_wellformed verts (cull_step verts st t)"
    by (rule cull_step_wellformed [OF Cons.prems])
  show ?case
    using Cons.IH [OF wf] cull_step_filter_malformed [of verts st t] by simp
qed

lemma cull_triangles_malformed:
  "filter (malformed verts) (cull_triangles verts ts) = filter (malformed verts) ts"
proof -
  let ?st = "foldl (cull_step verts) \<lparr>culledIndices = [], triangleMap = []\<rparr> ts"
  have init: "map_wellformed verts \<lparr>culledIndices = [], triangleMap = []\<rparr>"
    by (simp add: map_wellformed_def)
  have wf: "map_wellformed verts ?st"
    and c: "filter (malformed verts) (culledIndices ?st) = filter (malformed verts) ts"
    using cull_fold_malformed [OF init, of ts] by simp_all
  have "filter (malformed verts) (map (\<lambda>(k, triangle). indices triangle) (triangleMap ?st)) = []"
    using wf by (auto simp: map_wellformed_def list_all_iff filter_empty_conv)
  then show ?thesis using c by (simp add: cull_triangles_def cull_result_def)
qed

text \<open>
  Claim C4. A triple that references a vertex outside the vertex buffer
  (\<open>index * 3 + 2 \<ge> vertices.length\<close> for one of its three indices) is emitted unchanged:
  the malformed triples of the output are exactly the malformed triples of the input, in the
  input's order and as often. The step for such a triple only appends it to the emitted
  list: it computes no normal (so the triple cannot be dropped as degenerate) and leaves
  the triangle map as it was (so the triple takes no part in deduplication by key).
\<close>

theorem cullBackFaces_malformed_pass_through:
  assumes "triples_of triangleIndices = Some ts"
  shows "\<exists>out. cullBackFaces triangleIndices verts = Some (flat out)
           \<and> filter (malformed verts) out = filter (malformed verts) ts
           \<and> (\<forall>t \<in> set ts. malformed verts t \<longrightarrow>
                 (\<forall>st. cull_step verts st t = st\<lparr>culledIndices := culledIndices st @ [t]\<rparr>))"
proof -
  let ?out = "cull_triangles verts ts"
  have run: "cullBackFaces triangleIndices verts = Some (flat ?out)"
  proof (cases "triangleIndices = []")
    case True
    then have "ts = []" using assms by simp
    then show ?thesis using True
      by (simp add: cullBackFaces_def cull_triangles_def cull_result_def)
  next
    case False
    then show ?thesis using assms by (simp add: cullBackFaces_def)
  qed
  show ?thesis
    using run cull_triangles_malformed [of verts ts] cull_step_malformed by blast
qed

text \<open>
  A witness: the triple \<open>(7, 7, 7)\<close> is out of range for a buffer of three vertices; it is
  emitted both times it occurs, although its three indices are equal, while the
  well-formed zero-area triple \<open>(0, 0, 0)\<close> is dropped.
\<close>

theorem cullBackFaces_malformed_pass_through_witness:
  "triples_of [0,0,0, 7,7,7, 0,1,2, 7,7,7] = Some [(0,0,0), (7,7,7), (0,1,2), (7,7,7)]
   \<and> malformed (map Fin [0,0,0, 1,0,0, 0,1,0]) (7,7,7)
   \<and> cullBackFaces [0,0,0, 7,7,7, 0,1,2, 7,7,7] (map Fin [0,0,0, 1,0,0, 0,1,0])
       = Some [7,7,7, 7,7,7, 0,1,2]
   \<and> filter (malformed (map Fin [0,0,0, 1,0,0, 0,1,0])) [(7,7,7), (7,7,7), (0,1,2)]
       = [(7,7,7), (7,7,7)]"
  using cullBackFaces_malformed_pass_through
    [of "[0,0,0, 7,7,7, 0,1,2, 7,7,7]" "[(0,0,0), (7,7,7), (0,1,2), (7,7,7)]"
        "map Fin [0,0,0, 1,0,0, 0,1,0]"]
  by (simp add: cull_defs)

subsection \<open>Front and back face of one surface\<close>

lemma cull_step_keyed:
  assumes "map_keyed st"
  shows "map_keyed (cull_step verts st t)"
proof -
  let ?c = "\<lparr>indices = t, normal = normalize (face_normal verts t)\<rparr>"
  let ?al = "AList.update (tri_key t) ?c (triangleMap st)"
  have d: "distinct (map fst ?al)"
    using assms by (simp add: map_keyed_def distinct_update)
  have "k = tri_key (indices c)" if "(k, c) \<in> set ?al" for k c
    using that assms set_update_subset [of "tri_key t" ?c "triangleMap st"]
    by (auto simp: map_keyed_def list_all_iff)
  then have "list_all (\<lambda>(k, triangle). k = tri_key (indices triangle)) ?al"
    by (auto simp: list_all_iff)
  then show ?thesis
    using assms d
    by (auto simp: cull_step_def map_keyed_def Let_def split: option.splits)
qed

lemma cull_step_other_key:
  assumes "tri_key t \<noteq> k"
  shows "map_of (triangleMap (cull_step verts st t)) k = map_of (triangleMap st) k"
  using assms
  by (auto simp: cull_step_def Let_def map_of_update_other split: option.splits)

lemma cull_step_culled_subset:
  "set (culledIndices (cull_step verts st t)) \<subseteq> insert t (set (culledIndices st))"
  by (auto simp: cull_step_def Let_def split: option.splits)

lemma cull_fold_other_keys:
  assumes "\<forall>t \<in> set ts. tri_key t \<noteq> k"
  shows "map_of (triangleMap (foldl (cull_step verts) st ts)) k = map_of (triangleMap st) k
     \<and> set (culledIndices (foldl (cull_step verts) st ts)) \<subseteq> set (culledIndices st) \<union> set ts
     \<and> (map_keyed st \<longrightarrow> map_keyed (foldl (cull_step verts) st ts))"
  using assms
proof (induction ts arbitrary: st)
  case Nil
  then show ?case by simp
next
  case (Cons t ts)
  have k: "tri_key t \<noteq> k" and rest: "\<forall>t \<in> set ts. tri_key t \<noteq> k"
    using Cons.prems by simp_all
  note ih = Cons.IH [OF rest, of "cull_step verts st t"]
  have a: "map_of (triangleMap (foldl (cull_step verts) st (t # ts))) k = map_of (triangleMap st) k"
    using ih cull_step_other_key [OF k] by simp
  have b: "set (culledIndices (foldl (cull_step verts) st (t # ts)))
             \<subseteq> set (culledIndices st) \<union> set (t # ts)"
    using ih cull_step_culled_subset [of verts st t] by auto
  have c: "map_keyed st \<longrightarrow> map_keyed (foldl (cull_step verts) st (t # ts))"
    using ih cull_step_keyed [of st verts t] by simp
  show ?case using a b c by blast
qed

lemma cull_step_first:
  assumes "\<not> malformed verts t" "\<not> degenerate verts t"
    and "map_of (triangleMap st) (tri_key t) = None"
  shows "cull_step verts st t
     = st\<lparr>triangleMap := AList.update (tri_key t)
            \<lparr>indices = t, normal = unit_normal verts t\<rparr> (triangleMap st)\<rparr>"
  using assms by (simp add: cull_step_def degenerate_def unit_normal_def Let_def)

lemma cull_step_opposite:
  assumes "\<not> malformed verts t" "\<not> degenerate verts t"
    and "map_of (triangleMap st) (tri_key t) = Some c"
    and "js_lt (dotProduct (unit_normal verts t) (normal c)) lit_minus_0_8"
  shows "cull_step verts st t
     = (if js_lt (score (normal c)) (score (unit_normal verts t))
        then st\<lparr>triangleMap := AList.update (tri_key t)
               \<lparr>indices = t, normal = unit_normal verts t\<rparr> (triangleMap st)\<rparr>
        else st)"
  using assms by (simp add: cull_step_def degenerate_def unit_normal_def Let_def)

lemma keyed_absent:
  assumes "list_all (\<lambda>(k, triangle). k = tri_key (indices triangle)) al"
    and "tri_key w \<notin> fst ` set al"
  shows "w \<notin> set (map (\<lambda>(k, triangle). indices triangle) al)"
  using assms by (force simp: list_all_iff)

lemma keyed_count:
  assumes "distinct (map fst al)"
    and "list_all (\<lambda>(k, triangle). k = tri_key (indices triangle)) al"
    and "map_of al (tri_key w) = Some c"
  shows "count_list (map (\<lambda>(k, triangle). indices triangle) al) w = (if indices c = w then 1 else 0)"
  using assms
proof (induction al)
  case Nil
  then show ?case by simp
next
  case (Cons p al)
  obtain k0 c0 where p: "p = (k0, c0)" by (cases p)
  have k0: "k0 = tri_key (indices c0)" using Cons.prems(2) p by simp
  have keyed: "list_all (\<lambda>(k, triangle). k = tri_key (indices triangle)) al"
    using Cons.prems(2) by simp
  show ?case
  proof (cases "k0 = tri_key w")
    case True
    then have c: "c = c0" using Cons.prems(3) p by simp
    have "tri_key w \<notin> fst ` set al" using Cons.prems(1) p True by auto
    then have "w \<notin> set (map (\<lambda>(k, triangle). indices triangle) al)"
      by (rule keyed_absent [OF keyed])
    then have "count_list (map (\<lambda>(k, triangle). indices triangle) al) w = 0"
      by (simp add: count_list_0_iff)
    then show ?thesis using p c by simp
  next
    case False
    then have ne: "indices c0 \<noteq> w" using k0 by auto
    have "map_of al (tri_key w) = Some c" using Cons.prems(3) p False by simp
    then have "count_list (map (\<lambda>(k, triangle). indices triangle) al) w
                 = (if indices c = w then 1 else 0)"
      using Cons.IH Cons.prems(1) keyed by simp
    then show ?thesis using p ne by simp
  qed
qed

text \<open>
  The dot product of a vector with itself is a sum of squares: it is not below zero,
  whatever the rounding, so it is not below \<open>-0.8\<close>.
\<close>

lemma dotProduct_self: "\<not> js_lt (dotProduct n n) lit_minus_0_8"
proof -
  obtain a b c where n: "n = (a, b, c)" by (cases n)
  have "not_negative (dotProduct n n)"
    unfolding n dotProduct_def by (simp add: js_add_not_negative js_mul_self)
  then show ?thesis
    by (cases "dotProduct n n") (simp_all add: lit_neg08)
qed

text \<open>
  Claim C3, amended. When exactly two triangles of the input have a given sorted-index key
  (\<open>t1\<close> before \<open>t2\<close>, any triangles of other keys around them), both are well formed and
  not degenerate, and the dot product of their unit normals is below \<open>-0.8\<close>, then exactly one
  of them is emitted, once: \<open>t2\<close> if its score \<open>nz*4 + ny*2 + nx\<close> is strictly larger than that of
  \<open>t1\<close>, otherwise \<open>t1\<close>. Normals, dot product and scores are the doubles that the function
  computes, and the comparisons are those of the function.
\<close>

theorem cullBackFaces_opposite_pair:
  assumes wf1: "\<not> malformed verts t1" "\<not> degenerate verts t1"
    and wf2: "\<not> malformed verts t2" "\<not> degenerate verts t2"
    and key: "tri_key t2 = tri_key t1"
    and others: "\<forall>t \<in> set (pre @ mid @ post). tri_key t \<noteq> tri_key t1"
    and opp: "js_lt (dotProduct (unit_normal verts t2) (unit_normal verts t1)) lit_minus_0_8"
  shows "\<exists>out. cullBackFaces (flat (pre @ t1 # mid @ t2 # post)) verts = Some (flat out)
     \<and> (if js_lt (score (unit_normal verts t1)) (score (unit_normal verts t2))
         then count_list out t2 = 1 \<and> t1 \<notin> set out
         else count_list out t1 = 1 \<and> t2 \<notin> set out)"
proof -
  let ?k = "tri_key t1"
  let ?step = "cull_step verts"
  let ?c1 = "\<lparr>indices = t1, normal = unit_normal verts t1\<rparr>"
  let ?c2 = "\<lparr>indices = t2, normal = unit_normal verts t2\<rparr>"
  let ?ind = "\<lambda>(k, triangle). indices triangle"
  define st0 :: cull_state where "st0 = \<lparr>culledIndices = [], triangleMap = []\<rparr>"
  define st1 where "st1 = foldl ?step st0 pre"
  define st2 where "st2 = ?step st1 t1"
  define st3 where "st3 = foldl ?step st2 mid"
  define st4 where "st4 = ?step st3 t2"
  define st5 where "st5 = foldl ?step st4 post"
  define wc where "wc = (if js_lt (score (unit_normal verts t1)) (score (unit_normal verts t2))
                         then ?c2 else ?c1)"
  have pre: "\<forall>t \<in> set pre. tri_key t \<noteq> ?k" and mid: "\<forall>t \<in> set mid. tri_key t \<noteq> ?k"
    and post: "\<forall>t \<in> set post. tri_key t \<noteq> ?k"
    using others by auto
  have ne: "t1 \<noteq> t2"
    using opp dotProduct_self [of "unit_normal verts t1"] by auto
  have k0: "map_keyed st0" by (simp add: st0_def map_keyed_def)
  have s1: "map_of (triangleMap st1) ?k = None" "set (culledIndices st1) \<subseteq> set pre" "map_keyed st1"
    using cull_fold_other_keys [OF pre, of verts st0] k0 by (simp_all add: st1_def st0_def)
  have st2_eq: "st2 = st1\<lparr>triangleMap := AList.update ?k ?c1 (triangleMap st1)\<rparr>"
    unfolding st2_def using cull_step_first [OF wf1 s1(1)] .
  have s2a: "map_of (triangleMap st2) ?k = Some ?c1"
    by (simp add: st2_eq map_of_update_same)
  have s2b: "set (culledIndices st2) \<subseteq> set pre"
    using s1(2) by (simp add: st2_eq)
  have s2c: "map_keyed st2"
    unfolding st2_def by (rule cull_step_keyed [OF s1(3)])
  note s2 = s2a s2b s2c
  have s3: "map_of (triangleMap st3) ?k = Some ?c1"
    "set (culledIndices st3) \<subseteq> set pre \<union> set mid" "map_keyed st3"
    using cull_fold_other_keys [OF mid, of verts st2] s2 by (auto simp: st3_def)
  have look: "map_of (triangleMap st3) (tri_key t2) = Some ?c1" using s3(1) key by simp
  have opp': "js_lt (dotProduct (unit_normal verts t2) (normal ?c1)) lit_minus_0_8" using opp by simp
  have st4_eq: "st4 = (if js_lt (score (unit_normal verts t1)) (score (unit_normal verts t2))
        then st3\<lparr>triangleMap := AList.update ?k ?c2 (triangleMap st3)\<rparr> else st3)"
    unfolding st4_def using cull_step_opposite [OF wf2 look opp'] key by simp
  have s4a: "map_of (triangleMap st4) ?k = Some wc"
    using s3(1) by (simp add: st4_eq wc_def map_of_update_same)
  have s4b: "set (culledIndices st4) \<subseteq> set pre \<union> set mid"
    using s3(2) by (simp add: st4_eq)
  have s4c: "map_keyed st4"
    unfolding st4_def by (rule cull_step_keyed [OF s3(3)])
  note s4 = s4a s4b s4c
  have s5: "map_of (triangleMap st5) ?k = Some wc"
    "set (culledIndices st5) \<subseteq> set pre \<union> set mid \<union> set post" "map_keyed st5"
    using cull_fold_other_keys [OF post, of verts st4] s4 by (auto simp: st5_def)
  have run: "foldl ?step st0 (pre @ t1 # mid @ t2 # post) = st5"
    by (simp add: st5_def st4_def st3_def st2_def st1_def)
  have not_culled: "w \<notin> set (culledIndices st5)" if "tri_key w = ?k" for w
    using s5(2) that others by auto
  have cnt: "count_list (cull_result st5) w = (if indices wc = w then 1 else 0)"
    if w: "tri_key w = ?k" for w
  proof -
    have "count_list (culledIndices st5) w = 0"
      using not_culled [OF w] by (simp add: count_list_0_iff)
    moreover have "count_list (map ?ind (triangleMap st5)) w = (if indices wc = w then 1 else 0)"
      using keyed_count [of "triangleMap st5" w wc] s5(1,3) w by (simp add: map_keyed_def)
    ultimately show ?thesis by (simp add: cull_result_def)
  qed
  have out: "cullBackFaces (flat (pre @ t1 # mid @ t2 # post)) verts = Some (flat (cull_result st5))"
    using run by (simp add: cullBackFaces_def cull_triangles_def st0_def)
  have c1: "count_list (cull_result st5) t1 = (if indices wc = t1 then 1 else 0)"
    by (rule cnt) simp
  have c2: "count_list (cull_result st5) t2 = (if indices wc = t2 then 1 else 0)"
    by (rule cnt) (rule key)
  show ?thesis
  proof (cases "js_lt (score (unit_normal verts t1)) (score (unit_normal verts t2))")
    case True
    then have "indices wc = t2" by (simp add: wc_def)
    then have "count_list (cull_result st5) t2 = 1" "count_list (cull_result st5) t1 = 0"
      using c1 c2 ne by auto
    then show ?thesis using out True by (auto simp: count_list_0_iff)
  next
    case False
    then have "indices wc = t1" by (simp add: wc_def)
    then have "count_list (cull_result st5) t1 = 1" "count_list (cull_result st5) t2 = 0"
      using c1 c2 ne by auto
    then show ?thesis using out False by (auto simp: count_list_0_iff)
  qed
qed

text \<open>
  The example of the specification: the triangle with normal \<open>(0, 0, 1)\<close> is kept and the one
  with normal \<open>(0, 0, -1)\<close> is not, whichever comes first.
\<close>

theorem cullBackFaces_opposite_pair_witness:
  "\<not> malformed (map Fin [0,0,0, 1,0,0, 0,1,0]) (0,2,1)
   \<and> \<not> degenerate (map Fin [0,0,0, 1,0,0, 0,1,0]) (0,2,1)
   \<and> \<not> malformed (map Fin [0,0,0, 1,0,0, 0,1,0]) (0,1,2)
   \<and> \<not> degenerate (map Fin [0,0,0, 1,0,0, 0,1,0]) (0,1,2)
   \<and> tri_key (0,1,2) = tri_key (0,2,1)
   \<and> unit_normal (map Fin [0,0,0, 1,0,0, 0,1,0]) (0,2,1) = (Fin 0, Fin 0, Fin (- 1))
   \<and> unit_normal (map Fin [0,0,0, 1,0,0, 0,1,0]) (0,1,2) = (Fin 0, Fin 0, Fin 1)
   \<and> js_lt (dotProduct (unit_normal (map Fin [0,0,0, 1,0,0, 0,1,0]) (0,1,2))
        (unit_normal (map Fin [0,0,0, 1,0,0, 0,1,0]) (0,2,1))) lit_minus_0_8
   \<and> cullBackFaces (flat ([] @ (0,2,1) # [] @ (0,1,2) # [])) (map Fin [0,0,0, 1,0,0, 0,1,0])
       = Some [0,1,2]
   \<and> cullBackFaces [0,1,2, 0,2,1] (map Fin [0,0,0, 1,0,0, 0,1,0]) = Some [0,1,2]"
  using cullBackFaces_opposite_pair
    [of "map Fin [0,0,0, 1,0,0, 0,1,0]" "(0,2,1)" "(0,1,2)" "[]" "[]" "[]"]
  by (simp add: cull_defs)

text \<open>
  The claim as stated, for any two triangles of any input, does not hold: a new triangle is
  only compared with the candidate recorded for its key. In the input below the second
  triangle repeats the first (same normal, so it is emitted at once), and the third, its
  opposite face with the larger score, replaces the first as candidate: the second and the
  third triangle share a key, their normals are opposite, and both are emitted.
\<close>

theorem cullBackFaces_opposite_pair_counterexample:
  "\<not> malformed (map Fin [0,0,0, 1,0,0, 0,1,0]) (0,2,1)
   \<and> \<not> degenerate (map Fin [0,0,0, 1,0,0, 0,1,0]) (0,2,1)
   \<and> \<not> malformed (map Fin [0,0,0, 1,0,0, 0,1,0]) (0,1,2)
   \<and> \<not> degenerate (map Fin [0,0,0, 1,0,0, 0,1,0]) (0,1,2)
   \<and> tri_key (0,1,2) = tri_key (0,2,1)
   \<and> js_lt (dotProduct (unit_normal (map Fin [0,0,0, 1,0,0, 0,1,0]) (0,1,2))
        (unit_normal (map Fin [0,0,0, 1,0,0, 0,1,0]) (0,2,1))) lit_minus_0_8
   \<and> cullBackFaces [0,2,1, 0,2,1, 0,1,2] (map Fin [0,0,0, 1,0,0, 0,1,0])
       = Some (flat [(0,2,1), (0,1,2)])"
  by (simp add: cull_defs)

text \<open>
  An example in which the rounding decides. The two faces of the triangle with the
  vertices \<open>(0, 0, 0)\<close>, \<open>(1, -1, 0)\<close>, \<open>(0, 3, 4)\<close> have the normals \<open>(-4, -4, 3)\<close> and
  \<open>(4, 4, -3)\<close>, of length \<open>sqrt 41\<close>. Without rounding both scores would be 0 and the
  first face would stay. In doubles the score of the first face is \<open>-2^-53\<close> and that of
  the second is \<open>2^-53\<close>, so the second face replaces the first.
\<close>

lemma cullBackFaces_rounded_scores:
  "cullBackFaces [0,1,2, 0,2,1] (map Fin [0,0,0, 1,-1,0, 0,3,4]) = Some [0,2,1]"
proof -
  define V where "V = map Fin [0,0,0, 1,-1,0, 0,3,4]"
  define t1 :: tri where "t1 = (0,1,2)"
  define t2 :: tri where "t2 = (0,2,1)"
  define L :: real where "L = 7209276982427392 / 2 ^ 50"
  define a :: real where "a = 5626752766772599 / 2 ^ 53"
  define b :: real where "b = 4220064575079449 / 2 ^ 53"
  have wf: "\<not> malformed V t1" "\<not> malformed V t2"
    by (simp_all add: malformed_def V_def t1_def t2_def)
  have key: "tri_key t2 = tri_key t1" by (simp add: tri_key_def t1_def t2_def)
  have fn: "face_normal V t1 = (Fin (- 4), Fin (- 4), Fin 3)"
    "face_normal V t2 = (Fin 4, Fin 4, Fin (- 3))"
    by (simp_all add: face_normal_def vertex_def edge_def cross_def V_def t1_def t2_def)
  have "6 < sqrt 41 \<and> sqrt 41 < 7" by (rule sqrt_between) simp_all
  moreover have "round_half_even (sqrt 41 / 2 powi (2 - 52)) = 7209276982427392"
    by (rule rhe_sqrt) simp_all
  ultimately have root: "to_double (sqrt 41) = Fin L"
    unfolding L_def using to_double_eval [of 2 "sqrt 41" 7209276982427392] by simp
  have len: "normalLength (Fin (- 4), Fin (- 4), Fin 3) = Fin L"
    "normalLength (Fin 4, Fin 4, Fin (- 3)) = Fin L"
    by (simp_all add: normalLength_def root)
  have L0: "L \<noteq> 0" by (simp add: L_def)
  have d4: "to_double (4 / L) = Fin a"
    unfolding L_def a_def
    using to_double_eval_near [of "- 1" "4 / (7209276982427392 / 2 ^ 50)" 5626752766772599] by simp
  have d3: "to_double (3 / L) = Fin b"
    unfolding L_def b_def
    using to_double_eval_near [of "- 2" "3 / (7209276982427392 / 2 ^ 50)" 8440129150158898] by simp
  have d4m: "to_double (- (4 / L)) = Fin (- a)"
    unfolding L_def a_def
    using to_double_eval_near [of "- 1" "- (4 / (7209276982427392 / 2 ^ 50))" "- 5626752766772599"] by simp
  have d3m: "to_double (- (3 / L)) = Fin (- b)"
    unfolding L_def b_def
    using to_double_eval_near [of "- 2" "- (3 / (7209276982427392 / 2 ^ 50))" "- 8440129150158898"] by simp
  have un: "unit_normal V t1 = (Fin (- a), Fin (- a), Fin b)"
    "unit_normal V t2 = (Fin a, Fin a, Fin (- b))"
    unfolding unit_normal_def fn normalize_def len by (simp_all add: L0 d4 d3 d4m d3m)
  have nd: "\<not> degenerate V t1" "\<not> degenerate V t2"
    unfolding degenerate_def fn len by (simp_all add: lit_1e6 L_def)
  define aa :: real where "aa = 7030009174431994 / 2 ^ 54"
  define bb :: real where "bb = 7908760321235993 / 2 ^ 55"
  define c :: real where "c = 5626752766772598 / 2 ^ 53"
  define u :: real where "u = 1 / 2 ^ 53"
  have maa: "js_mul (Fin a) (Fin (- a)) = Fin (- aa)"
    unfolding a_def aa_def
    using to_double_eval_near [of "- 2" "- (5626752766772599 / 2 ^ 53 * (5626752766772599 / 2 ^ 53))"
        "- 7030009174431994"] by simp
  have mbb: "js_mul (Fin (- b)) (Fin b) = Fin (- bb)"
    unfolding b_def bb_def
    using to_double_eval_near [of "- 3" "- (4220064575079449 / 2 ^ 53 * (4220064575079449 / 2 ^ 53))"
        "- 7908760321235993"] by simp
  have s2: "js_add (Fin (- aa)) (Fin (- aa)) = Fin (- (2 * aa))"
    unfolding aa_def using to_double_div_pow2 [of "- 7030009174431994" 53] by simp
  have s3: "js_add (Fin (- (2 * aa))) (Fin (- bb)) = Fin (- 1)"
    unfolding aa_def bb_def
    using to_double_eval_near [of 0 "- (2 * (7030009174431994 / 2 ^ 54)) - 7908760321235993 / 2 ^ 55"
        "- 4503599627370496"] by simp
  have dot: "dotProduct (unit_normal V t2) (unit_normal V t1) = Fin (- 1)"
    unfolding un dotProduct_def by (simp only: prod.case maa mbb s2 s3)
  have opp: "js_lt (dotProduct (unit_normal V t2) (unit_normal V t1)) lit_minus_0_8"
    unfolding dot by (simp add: lit_neg08)
  have b4: "js_mul (Fin b) (Fin 4) = Fin (4 * b)"
    unfolding b_def using to_double_div_pow2 [of 4220064575079449 51] by simp
  have a2: "js_mul (Fin (- a)) (Fin 2) = Fin (- (2 * a))"
    unfolding a_def using to_double_div_pow2 [of "- 5626752766772599" 52] by simp
  have t1: "js_add (Fin (4 * b)) (Fin (- (2 * a))) = Fin c"
    unfolding a_def b_def c_def using to_double_div_pow2 [of 2813376383386299 52] by simp
  have t2: "js_add (Fin c) (Fin (- a)) = Fin (- u)"
    unfolding a_def c_def u_def using to_double_div_pow2 [of "- 1" 53] by simp
  have b4m: "js_mul (Fin (- b)) (Fin 4) = Fin (- (4 * b))"
    unfolding b_def using to_double_div_pow2 [of "- 4220064575079449" 51] by simp
  have a2m: "js_mul (Fin a) (Fin 2) = Fin (2 * a)"
    unfolding a_def using to_double_div_pow2 [of 5626752766772599 52] by simp
  have t1m: "js_add (Fin (- (4 * b))) (Fin (2 * a)) = Fin (- c)"
    unfolding a_def b_def c_def using to_double_div_pow2 [of "- 2813376383386299" 52] by simp
  have t2m: "js_add (Fin (- c)) (Fin a) = Fin u"
    unfolding a_def c_def u_def using to_double_div_pow2 [of 1 53] by simp
  have sc1: "score (unit_normal V t1) = Fin (- u)"
    unfolding un score_def by (simp only: prod.case b4 a2 t1 t2)
  have sc2: "score (unit_normal V t2) = Fin u"
    unfolding un score_def by (simp only: prod.case b4m a2m t1m t2m)
  have lt: "js_lt (Fin (- u)) (Fin u)" by (simp add: u_def)
  define st0 :: cull_state where "st0 = \<lparr>culledIndices = [], triangleMap = []\<rparr>"
  let ?c1 = "\<lparr>indices = t1, normal = unit_normal V t1\<rparr>"
  let ?c2 = "\<lparr>indices = t2, normal = unit_normal V t2\<rparr>"
  have r1: "cull_step V st0 t1 = st0\<lparr>triangleMap := [(tri_key t1, ?c1)]\<rparr>"
    using cull_step_first [OF wf(1) nd(1), of st0] by (simp add: st0_def)
  have look: "map_of (triangleMap (st0\<lparr>triangleMap := [(tri_key t1, ?c1)]\<rparr>)) (tri_key t2)
                = Some ?c1"
    by (simp add: key)
  have opp': "js_lt (dotProduct (unit_normal V t2) (normal ?c1)) lit_minus_0_8"
    using opp by simp
  have r2: "cull_step V (st0\<lparr>triangleMap := [(tri_key t1, ?c1)]\<rparr>) t2
              = st0\<lparr>triangleMap := [(tri_key t1, ?c2)]\<rparr>"
    unfolding cull_step_opposite [OF wf(2) nd(2) look opp']
    by (simp add: sc1 sc2 lt key st0_def del: js_lt.simps)
  have "cull_triangles V [t1, t2] = [t2]"
    unfolding cull_triangles_def
    using r1 r2 by (simp add: st0_def cull_result_def)
  then have "cullBackFaces (flat [t1, t2]) V = Some (flat [t2])"
    by (simp add: cullBackFaces_def t1_def)
  then show ?thesis by (simp add: V_def t1_def t2_def)
qed

section \<open>Properties of R16Writer.write\<close>

lemma to_double_nat:
  assumes "n < 2 ^ 53"
  shows "to_double (real n) = Fin (real n)"
proof -
  have "int n < 2 ^ 53" using assms by (metis of_nat_less_iff of_nat_numeral of_nat_power)
  then have "\<bar>int n\<bar> < 2 ^ 53" by simp
  then show ?thesis using to_double_int [of "int n"] by simp
qed

text \<open>
  For a square grid the root is exact and the buffer has two bytes per cell (a JavaScript
  array has fewer than \<open>2^32\<close> elements).
\<close>

lemma alloc_buffer_square:
  assumes "length hs = k * k" "k * k < 2 ^ 32"
  shows "alloc_buffer hs = Inr (replicate (2 * length hs) 0)"
proof -
  have k: "k < 2 ^ 53" "k * k < 2 ^ 53" "k * k * 2 < 2 ^ 53"
  proof -
    have "k \<le> k * k" by (cases k) simp_all
    then have "k < 2 ^ 32" using assms(2) by linarith
    moreover have "(2 :: nat) ^ 32 < 2 ^ 53" by simp
    ultimately show "k < 2 ^ 53" by linarith
    show "k * k < 2 ^ 53" using assms(2) by simp
    show "k * k * 2 < 2 ^ 53" using assms(2) by simp
  qed
  define n where "n = k * k * 2"
  have "sqrt (real (k * k)) = real k" by (simp add: real_sqrt_mult)
  then have root: "math_sqrt (Fin (real (length hs))) = Fin (real k)"
    using to_double_nat [OF k(1)] by (simp add: assms(1))
  have sq: "js_mul (Fin (real k)) (Fin (real k)) = Fin (real (k * k))"
    using to_double_nat [OF k(2)] by simp
  have twice: "js_mul (Fin (real (k * k))) (Fin 2) = Fin (real n)"
    using to_double_nat [OF k(3)] by (simp add: n_def)
  have "nat \<lfloor>real n\<rfloor> = n" by (simp only: floor_of_nat nat_int)
  then have "alloc_buffer hs = Inr (replicate n 0)"
    unfolding alloc_buffer_def Let_def root sq twice by simp
  then show ?thesis by (simp add: n_def assms(1) mult.commute)
qed

text \<open>
  The value of a cell inside the range. The subtractions, the division and the
  multiplication round, but rounding is monotone and leaves 0, 1 and 65535 as they are, so
  the result stays between 0 and 65535.
\<close>

lemma to_double_between:
  assumes "a \<le> x" "x \<le> b" "nearest a = a" "nearest b = b" "- (2 ^ 1024) < a" "b < 2 ^ 1024"
  shows "\<exists>y. to_double x = Fin y \<and> a \<le> y \<and> y \<le> b"
proof -
  have "a \<le> nearest x" "nearest x \<le> b"
    using nearest_mono [OF assms(1)] nearest_mono [OF assms(2)] assms(3,4) by simp_all
  then show ?thesis using assms(5,6) by (simp add: to_double_def Let_def)
qed

lemma r16Value_in_range:
  assumes "is_double mn" "is_double mx" "mn < mx" "js_sub (Fin mx) (Fin mn) \<noteq> PosInf"
    and "mn \<le> h" "h \<le> mx"
  shows "\<exists>v. r16Value (Fin mn) (Fin mx) h = Fin (of_int v) \<and> 0 \<le> v \<and> v \<le> 65535"
proof -
  define d where "d = nearest (mx - mn)"
  have d_pos: "0 < d" unfolding d_def by (rule double_difference [OF assms(1,2,3)])
  have d_fin: "to_double (mx - mn) = Fin d"
    using assms(4) d_pos by (simp add: to_double_def Let_def d_def split: if_splits)
  then have d_lt: "d < 2 ^ 1024"
    by (simp add: to_double_def Let_def d_def split: if_splits)
  define a where "a = nearest (h - mn)"
  have a_ge: "0 \<le> a" unfolding a_def by (rule nearest_nonneg) (use assms(5) in simp)
  have a_le: "a \<le> d" unfolding a_def d_def by (rule nearest_mono) (use assms(6) in simp)
  have a_fin: "to_double (h - mn) = Fin a"
    using a_ge a_le d_lt by (simp add: to_double_def Let_def a_def)
  have one: "nearest 1 = 1" using nearest_int [of 1] by simp
  have q0: "0 \<le> a / d" using a_ge d_pos by simp
  have q1: "a / d \<le> 1" using a_le d_pos by simp
  obtain q where q: "to_double (a / d) = Fin q" "0 \<le> q" "q \<le> 1"
    using to_double_between [OF q0 q1 nearest_0 one] by auto
  have top: "nearest 65535 = 65535" using nearest_int [of 65535] by simp
  have p0: "0 \<le> q * 65535" using q(2) by simp
  have p1: "q * 65535 \<le> 65535" using q(3) by simp
  obtain p where p: "to_double (q * 65535) = Fin p" "0 \<le> p" "p \<le> 65535"
    using to_double_between [OF p0 p1 nearest_0 top] by auto
  have rv: "r16Value (Fin mn) (Fin mx) h = Fin (of_int \<lfloor>p + 1 / 2\<rfloor>)"
    using d_fin a_fin q(1) p(1) d_pos by (simp add: r16Value_def)
  have "0 \<le> \<lfloor>p + 1 / 2\<rfloor>" using p(2) by simp
  moreover have "\<lfloor>p + 1 / 2\<rfloor> \<le> 65535" using p(3) by linarith
  ultimately show ?thesis using rv by blast
qed

text \<open>
  With \<open>minHeight = 0\<close> the two subtractions change nothing: the value is
  \<open>Math.round(h / maxHeight * 65535)\<close>, the division and the multiplication in doubles.
\<close>

lemma r16Value_from_zero:
  assumes "is_double h" "is_double mx"
  shows "r16Value (Fin 0) (Fin mx) h = math_round (js_mul (js_div (Fin h) (Fin mx)) (Fin 65535))"
  using assms by (simp add: r16Value_def is_double_def)

text \<open>
  With \<open>minHeight = 0\<close> and \<open>maxHeight = 65535 * k\<close> a sample \<open>j * k\<close> is written as \<open>j\<close>:
  the quotient and the product are off by a relative error of at most \<open>2^-53\<close> each,
  which \<open>Math.round\<close> removes.
\<close>

lemma r16Value_round_trip:
  assumes "0 < k" "0 \<le> j" "j \<le> 65535" "65535 * k < 2 ^ 53"
  shows "r16Value (Fin 0) (Fin (65535 * real_of_int k)) (real_of_int (j * k)) = Fin (real_of_int j)"
proof -
  define h where "h = real_of_int (j * k)"
  define mx where "mx = 65535 * real_of_int k"
  have jk: "j * k \<le> 65535 * k" using assms(1,3) by simp
  have "0 \<le> j * k" using assms(1,2) by simp
  then have "\<bar>j * k\<bar> < 2 ^ 53" using jk assms(4) by linarith
  then have hd: "is_double h" unfolding is_double_def h_def by (rule to_double_int)
  have "\<bar>65535 * k\<bar> < 2 ^ 53" using assms(1,4) by simp
  then have "is_double (real_of_int (65535 * k))" unfolding is_double_def by (rule to_double_int)
  then have md: "is_double mx" by (simp add: mx_def)
  have mx0: "mx \<noteq> 0" "0 < real_of_int k" using assms(1) by (simp_all add: mx_def)
  define x where "x = real_of_int j / 65535"
  have quot: "h / mx = x" using mx0 by (simp add: h_def mx_def x_def)
  have x01: "0 \<le> x" "x \<le> 1" using assms(2,3) by (simp_all add: x_def)
  define q where "q = nearest x"
  have q01: "0 \<le> q" "q \<le> 1"
    using nearest_mono [OF x01(1)] nearest_mono [OF x01(2)] by (simp_all add: q_def)
  have dq: "js_div (Fin h) (Fin mx) = Fin q"
    using mx0 x01 by (simp add: quot q_def to_double_small)
  define p where "p = nearest (q * 65535)"
  have dp: "js_mul (Fin q) (Fin 65535) = Fin p"
    using q01 by (simp add: p_def to_double_small abs_mult)
  have near: "\<bar>p - real_of_int j\<bar> < 1 / 2"
  proof (cases "j = 0")
    case True
    then show ?thesis by (simp add: p_def q_def x_def)
  next
    case False
    then have j1: "1 \<le> real_of_int j" using assms(2) by simp
    have xl: "1 / 65535 \<le> x" using j1 by (simp add: x_def)
    have tiny: "(2 :: real) powi (- 1022) \<le> 1 / 65535"
    proof -
      have "(2 :: real) powi (- 1022) \<le> 2 powi (- 16)" by (intro power_int_increasing) simp_all
      also have "\<dots> \<le> 1 / 65535" by simp
      finally show ?thesis .
    qed
    have e1: "\<bar>q - x\<bar> \<le> x / 2 ^ 53"
      using nearest_relative_error [of x] xl tiny x01 by (simp add: q_def)
    define y where "y = q * 65535"
    have "y - real_of_int j = (q - x) * 65535" by (simp add: y_def x_def algebra_simps)
    then have "\<bar>y - real_of_int j\<bar> = \<bar>q - x\<bar> * 65535" by (simp only: abs_mult abs_numeral)
    also have "\<dots> \<le> x / 2 ^ 53 * 65535" using e1 by (intro mult_right_mono) simp_all
    also have "\<dots> = real_of_int j / 2 ^ 53" by (simp add: x_def)
    finally have ey: "\<bar>y - real_of_int j\<bar> \<le> real_of_int j / 2 ^ 53" .
    have small: "real_of_int j / 2 ^ 53 \<le> real_of_int j / 2" using j1 by (simp add: field_simps)
    have yl: "1 / 2 \<le> y" and yu: "y \<le> 2 * real_of_int j" using ey small j1 by linarith+
    have "(2 :: real) powi (- 1022) \<le> 1 / 2"
    proof -
      have "(2 :: real) powi (- 1022) \<le> 2 powi (- 1)" by (intro power_int_increasing) simp_all
      then show ?thesis by simp
    qed
    then have "2 powi (- 1022) \<le> \<bar>y\<bar>" using yl by linarith
    then have "\<bar>p - y\<bar> \<le> \<bar>y\<bar> / 2 ^ 53"
      unfolding p_def y_def [symmetric] by (rule nearest_relative_error)
    also have "\<dots> \<le> 2 * real_of_int j / 2 ^ 53" using yl yu by (simp add: divide_right_mono)
    finally have e2: "\<bar>p - y\<bar> \<le> 2 * real_of_int j / 2 ^ 53" .
    define a where "a = real_of_int j / 2 ^ 53"
    have "real_of_int j \<le> 65535" using assms(3) by simp
    then have a: "3 * a < 1 / 2" by (simp add: a_def)
    have "\<bar>y - real_of_int j\<bar> \<le> a" "\<bar>p - y\<bar> \<le> 2 * a"
      using ey e2 by (simp_all add: a_def)
    then have "\<bar>p - real_of_int j\<bar> \<le> 3 * a" by linarith
    then show ?thesis using a by linarith
  qed
  have "r16Value (Fin 0) (Fin mx) h = math_round (js_mul (js_div (Fin h) (Fin mx)) (Fin 65535))"
    by (rule r16Value_from_zero [OF hd md])
  also have "\<dots> = Fin (of_int \<lfloor>p + 1 / 2\<rfloor>)" by (simp only: dq dp math_round.simps)
  also have "\<lfloor>p + 1 / 2\<rfloor> = j" using near by linarith
  finally show ?thesis by (simp add: h_def mx_def)
qed

lemma readUInt16LE_written:
  assumes "0 \<le> v" "v \<le> 65535" "offset + 2 \<le> length buffer"
  shows "readUInt16LE (buffer[offset := word_of_int v, offset + 1 := word_of_int (v div 256)]) offset = v"
proof -
  have lo: "uint (word_of_int v :: byte) = v mod 256"
    by (simp add: uint_word_of_int take_bit_eq_mod)
  have "v div 256 < 256" using assms(2) by linarith
  moreover have "0 \<le> v div 256" using assms(1) by simp
  ultimately have hi: "uint (word_of_int (v div 256) :: byte) = v div 256"
    by (simp add: uint_word_of_int take_bit_eq_mod)
  show ?thesis using assms(3) lo hi by (simp add: readUInt16LE_def)
qed

lemma writeUInt16LE_in_range:
  assumes "0 \<le> v" "v \<le> 65535" "offset + 2 \<le> length buffer"
  shows "\<exists>buffer'. writeUInt16LE buffer (Fin (of_int v)) offset = Inr buffer'
           \<and> length buffer' = length buffer
           \<and> buffer' ! offset = word_of_int v
           \<and> buffer' ! (offset + 1) = word_of_int (v div 256)
           \<and> readUInt16LE buffer' offset = v
           \<and> (\<forall>k. k \<noteq> offset \<and> k \<noteq> offset + 1 \<longrightarrow> buffer' ! k = buffer ! k)"
proof -
  have "\<not> (real_of_int v > 65535 \<or> real_of_int v < 0)" using assms(1,2) by simp
  then have w: "writeUInt16LE buffer (Fin (of_int v)) offset
          = Inr (buffer[offset := word_of_int v, offset + 1 := word_of_int (v div 256)])"
    using assms(3) by (simp add: writeUInt16LE_def)
  show ?thesis
    using w readUInt16LE_written [OF assms] assms(3) by simp
qed

lemma cell_written_frame:
  assumes "cell_written minH maxH h b1 offset" "b2 ! offset = b1 ! offset"
    "b2 ! (offset + 1) = b1 ! (offset + 1)"
  shows "cell_written minH maxH h b2 offset"
  using assms unfolding cell_written_def readUInt16LE_def by auto

lemma write_cells_in_range:
  assumes "\<forall>h \<in> set hs. \<exists>v. r16Value mn mx h = Fin (of_int v) \<and> 0 \<le> v \<and> v \<le> 65535"
    and "2 * (i + length hs) \<le> length buffer"
  shows "\<exists>buffer'. write_cells mn mx hs i buffer = Inr buffer'
           \<and> length buffer' = length buffer
           \<and> (\<forall>j < length hs. cell_written mn mx (hs ! j) buffer' (2 * (i + j)))
           \<and> (\<forall>k < 2 * i. buffer' ! k = buffer ! k)"
  using assms
proof (induction hs arbitrary: i buffer)
  case Nil
  then show ?case by simp
next
  case (Cons h hs)
  obtain v where v: "r16Value mn mx h = Fin (of_int v)" "0 \<le> v" "v \<le> 65535"
    using Cons.prems(1) by auto
  have fit: "i * 2 + 2 \<le> length buffer" using Cons.prems(2) by simp
  obtain b1 where b1: "writeUInt16LE buffer (Fin (of_int v)) (i * 2) = Inr b1"
    "length b1 = length buffer"
    "b1 ! (i * 2) = word_of_int v" "b1 ! (i * 2 + 1) = word_of_int (v div 256)"
    "readUInt16LE b1 (i * 2) = v"
    using writeUInt16LE_in_range [OF v(2,3) fit] by blast
  have c1: "cell_written mn mx h b1 (2 * i)"
    unfolding cell_written_def using v b1(3,4,5) by (auto simp: mult.commute)
  have rest: "\<forall>h \<in> set hs. \<exists>v. r16Value mn mx h = Fin (of_int v) \<and> 0 \<le> v \<and> v \<le> 65535"
    using Cons.prems(1) by simp
  have fit': "2 * (Suc i + length hs) \<le> length b1" using Cons.prems(2) b1(2) by simp
  obtain b2 where b2: "write_cells mn mx hs (Suc i) b1 = Inr b2"
    "length b2 = length b1"
    "\<forall>j < length hs. cell_written mn mx (hs ! j) b2 (2 * (Suc i + j))"
    "\<forall>k < 2 * Suc i. b2 ! k = b1 ! k"
    using Cons.IH [OF rest fit'] by blast
  have run: "write_cells mn mx (h # hs) i buffer = Inr b2"
    using b1(1) b2(1) v(1) by simp
  have first: "cell_written mn mx h b2 (2 * i)"
    by (rule cell_written_frame [OF c1]) (use b2(4) in simp_all)
  have cells: "cell_written mn mx ((h # hs) ! j) b2 (2 * (i + j))"
    if "j < length (h # hs)" for j
  proof (cases j)
    case 0
    then show ?thesis using first by simp
  next
    case (Suc j')
    then have "j' < length hs" using that by simp
    then show ?thesis using b2(3) Suc by simp
  qed
  have before: "b2 ! k = buffer ! k" if "k < 2 * i" for k
  proof -
    have "b2 ! k = b1 ! k" using b2(4) that by simp
    moreover have "b1 ! k = buffer ! k"
      using b1(1) that fit v(2,3) by (auto simp: writeUInt16LE_def split: if_splits)
    ultimately show ?thesis by simp
  qed
  show ?case using run b2(2) b1(2) cells before by simp
qed



text \<open>
  Two examples of what the arithmetic in doubles does. The double nearest to one sixth,
  in the range \<open>[0, 1]\<close>: its product with 65535 is rounded to 10922.5, so the cell is
  written as 10923, where the quotient computed without rounding would give 10922.
\<close>

lemma r16Value_one_sixth:
  "r16Value (Fin 0) (Fin 1) (6004799503160661 / 2 ^ 55) = Fin 10923"
proof -
  define h :: real where "h = 6004799503160661 / 2 ^ 55"
  have hd: "is_double h"
    unfolding is_double_def h_def using to_double_div_pow2 [of 6004799503160661 55] by simp
  have q: "js_div (Fin h) (Fin 1) = Fin h" using hd by (simp add: is_double_def)
  have p: "js_mul (Fin h) (Fin 65535) = Fin (21845 / 2)"
    unfolding h_def
    using to_double_eval_near [of 13 "6004799503160661 / 2 ^ 55 * 65535" 6004707877191680]
    by simp
  have "r16Value (Fin 0) (Fin 1) h = math_round (js_mul (js_div (Fin h) (Fin 1)) (Fin 65535))"
    by (rule r16Value_from_zero [OF hd]) (simp add: is_double_def)
  then have "r16Value (Fin 0) (Fin 1) h = Fin 10923"
    unfolding q p by simp
  then show ?thesis unfolding h_def .
qed

lemma exact_one_sixth:
  "\<lfloor>(6004799503160661 / 2 ^ 55 - 0) / (1 - 0) * 65535 + 1 / 2 :: real\<rfloor> = 10922"
  by simp

text \<open>
  A grid of three cells, which is not square: the root of 3 is rounded, its square falls
  below 3, the buffer has 5 bytes and the third cell does not fit, so \<open>write\<close> throws.
\<close>

lemma alloc_buffer_three: "alloc_buffer [h0, h1, h2] = Inr (replicate 5 0)"
proof -
  define r :: real where "r = 7800463371553962 / 2 ^ 52"
  define q :: real where "q = 6755399441055743 / 2 ^ 51"
  have "1 < sqrt 3 \<and> sqrt 3 < 2" by (rule sqrt_between) simp_all
  moreover have "round_half_even (sqrt 3 / 2 powi (0 - 52)) = 7800463371553962"
    by (rule rhe_sqrt) simp_all
  ultimately have root: "to_double (sqrt 3) = Fin r"
    unfolding r_def using to_double_eval [of 0 "sqrt 3" 7800463371553962] by simp
  have sq: "js_mul (Fin r) (Fin r) = Fin q"
    unfolding r_def q_def
    using to_double_eval_near [of 1 "7800463371553962 / 2 ^ 52 * (7800463371553962 / 2 ^ 52)"
        6755399441055743]
    by simp
  have twice: "js_mul (Fin q) (Fin 2) = Fin (2 * q)"
    unfolding q_def using to_double_div_pow2 [of 6755399441055743 50] by simp
  have fl: "nat \<lfloor>2 * q\<rfloor> = 5" unfolding q_def by simp
  show ?thesis
    unfolding alloc_buffer_def Let_def by (simp add: root sq twice fl del: js_mul.simps)
qed

lemma write_r16_three_cells:
  "write_r16 \<lparr>out = Some ''tile.r16'', heightData = [0, 1, 1], minHeight = Fin 0, maxHeight = Fin 1\<rparr>
     True \<lparr>file_exists = False, mkdir_ok = True, stream_ok = True\<rparr> = Inl ERR_OUT_OF_RANGE"
proof -
  have r: "replicate 5 (0 :: byte) = [0, 0, 0, 0, 0]" by (simp add: eval_nat_numeral)
  show ?thesis
    by (simp add: write_r16_def alloc_buffer_three r writeUInt16LE_def r16Value_def)
qed

section \<open>Properties of the second pass of setHeightDataFromChunks\<close>

lemma concat_rows_upt:
  "concat (map (\<lambda>y. map (\<lambda>x. y * n + x) [0..<n]) [0..<m]) = [0..<m * n]"
proof (induction m)
  case 0
  then show ?case by simp
next
  case (Suc m)
  have row: "map (\<lambda>x. m * n + x) [0..<n] = [m * n..<m * n + n]"
    using map_add_upt [of "m * n" n] by (simp add: add.commute)
  have "[0..<m * n + n] = [0..<m * n] @ [m * n..<m * n + n]"
    by (rule upt_add_eq_append) simp
  then show ?case using Suc row by (simp add: add.commute)
qed

lemma fold_concat_rows: "fold f (concat xss) = fold (\<lambda>xs. fold f xs) xss"
  by (induction xss) simp_all

lemma interpolate_index_fold:
  "interpolate g = fold cell_step [0..<fullSize * fullSize] g"
proof -
  have inner: "fold (\<lambda>x. interpolate_cell x y) [0..<fullSize] h
                 = fold cell_step (map (\<lambda>x. y * fullSize + x) [0..<fullSize]) h" for y h
  proof -
    have "fold (\<lambda>x. interpolate_cell x y) [0..<fullSize] h
            = fold (cell_step \<circ> (\<lambda>x. y * fullSize + x)) [0..<fullSize] h"
      by (rule fold_cong) (auto simp: cell_step_def)
    then show ?thesis by (simp add: fold_map)
  qed
  have "fold cell_step [0..<fullSize * fullSize] g
          = fold cell_step (concat (map (\<lambda>y. map (\<lambda>x. y * fullSize + x) [0..<fullSize]) [0..<fullSize])) g"
    by (simp add: concat_rows_upt)
  also have "\<dots> = fold (\<lambda>y. fold cell_step (map (\<lambda>x. y * fullSize + x) [0..<fullSize])) [0..<fullSize] g"
    by (simp add: fold_concat_rows fold_map comp_def)
  also have "\<dots> = interpolate g"
    unfolding interpolate_def by (rule fold_cong) (auto simp: inner)
  finally show ?thesis by simp
qed

lemma cell_step_index: "i div fullSize * fullSize + i mod fullSize = i"
  by simp

lemma interpolate_cell_frame:
  assumes "j \<noteq> y * fullSize + x"
  shows "heights (interpolate_cell x y g) ! j = heights g ! j"
    and "heightSet (interpolate_cell x y g) ! j = heightSet g ! j"
  using assms by (auto simp: interpolate_cell_def Let_def split: prod.splits)

lemma interpolate_cell_length:
  "length (heights (interpolate_cell x y g)) = length (heights g)"
  "length (heightSet (interpolate_cell x y g)) = length (heightSet g)"
  by (auto simp: interpolate_cell_def Let_def split: prod.splits)

lemma interpolate_cell_range:
  "runMin (interpolate_cell x y g) = runMin g" "runMax (interpolate_cell x y g) = runMax g"
  by (auto simp: interpolate_cell_def Let_def split: prod.splits)

lemma cell_step_frame:
  assumes "j \<noteq> i"
  shows "heights (cell_step i g) ! j = heights g ! j"
    and "heightSet (cell_step i g) ! j = heightSet g ! j"
  using assms interpolate_cell_frame [of j "i div fullSize" "i mod fullSize" g]
  by (simp_all add: cell_step_def)

lemma cell_steps_frame:
  assumes "j \<notin> set is"
  shows "heights (fold cell_step is g) ! j = heights g ! j
       \<and> heightSet (fold cell_step is g) ! j = heightSet g ! j"
  using assms
proof (induction "is" arbitrary: g)
  case Nil
  then show ?case by simp
next
  case (Cons i "is")
  then show ?case using cell_step_frame [of j i g] by simp
qed

lemma cell_steps_length:
  "length (heights (fold cell_step is g)) = length (heights g)
   \<and> length (heightSet (fold cell_step is g)) = length (heightSet g)
   \<and> runMin (fold cell_step is g) = runMin g \<and> runMax (fold cell_step is g) = runMax g"
  by (induction "is" arbitrary: g)
    (simp_all add: cell_step_def interpolate_cell_length interpolate_cell_range)

lemma upt_split: "i \<le> n \<Longrightarrow> [0..<n] = [0..<i] @ [i..<n]"
  using upt_add_eq_append [of 0 i "n - i"] by simp

lemma cell_steps_split:
  assumes "i < n"
  shows "fold cell_step [0..<n] g = fold cell_step [Suc i..<n] (cell_step i (fold cell_step [0..<i] g))"
proof -
  have "[0..<n] = [0..<i] @ i # [Suc i..<n]"
    using assms upt_split [of i n] by (simp add: upt_conv_Cons)
  then show ?thesis by simp
qed

text \<open>The grid that the scan finds on reaching cell \<open>i\<close>.\<close>

lemma visit_state:
  assumes len: "length (heights g) = n" "length (heightSet g) = n" and i: "i < n"
  shows "fold cell_step [0..<i] g = when_visited g (fold cell_step [0..<n] g) i"
proof -
  let ?v = "fold cell_step [0..<i] g" and ?f = "fold cell_step [0..<n] g"
  have fin: "?f = fold cell_step [i..<n] ?v"
  proof -
    have "[0..<n] = [0..<i] @ [i..<n]" using i by (simp add: upt_split)
    then show ?thesis by simp
  qed
  have lv: "length (heights ?v) = n" "length (heightSet ?v) = n"
    "runMin ?v = runMin g" "runMax ?v = runMax g"
    using cell_steps_length [of "[0..<i]" g] len by simp_all
  have lf: "length (heights ?f) = n" "length (heightSet ?f) = n"
    using cell_steps_length [of "[0..<n]" g] len by simp_all
  have before: "heights ?v ! j = heights ?f ! j \<and> heightSet ?v ! j = heightSet ?f ! j" if "j < i" for j
    using cell_steps_frame [of j "[i..<n]" ?v] that fin by simp
  have after: "heights ?v ! j = heights g ! j \<and> heightSet ?v ! j = heightSet g ! j" if "i \<le> j" for j
    using cell_steps_frame [of j "[0..<i]" g] that by simp
  have h: "heights ?v = take i (heights ?f) @ drop i (heights g)"
  proof (rule nth_equalityI)
    show "length (heights ?v) = length (take i (heights ?f) @ drop i (heights g))"
      using lv lf len i by simp
  next
    fix j assume "j < length (heights ?v)"
    then have j: "j < n" using lv by simp
    show "heights ?v ! j = (take i (heights ?f) @ drop i (heights g)) ! j"
    proof (cases "j < i")
      case True
      then show ?thesis using before lf i by (simp add: nth_append)
    next
      case False
      then show ?thesis using after [of j] lf len i j by (simp add: nth_append)
    qed
  qed
  have s: "heightSet ?v = take i (heightSet ?f) @ drop i (heightSet g)"
  proof (rule nth_equalityI)
    show "length (heightSet ?v) = length (take i (heightSet ?f) @ drop i (heightSet g))"
      using lv lf len i by simp
  next
    fix j assume "j < length (heightSet ?v)"
    then have j: "j < n" using lv by simp
    show "heightSet ?v ! j = (take i (heightSet ?f) @ drop i (heightSet g)) ! j"
    proof (cases "j < i")
      case True
      then show ?thesis using before lf i by (simp add: nth_append)
    next
      case False
      then show ?thesis using after [of j] lf len i j by (simp add: nth_append)
    qed
  qed
  show ?thesis
    using h s lv(3,4) by (simp add: when_visited_def)
qed

lemma add_neighbor_up:
  "add_neighbor g x y (0, -1) acc
     = (if 0 < y \<and> x < fullSize \<and> y \<le> fullSize \<and> heightSet g ! ((y - 1) * fullSize + x)
        then (nearest (fst acc + heights g ! ((y - 1) * fullSize + x)), Suc (snd acc)) else acc)"
proof (cases "0 < y")
  case True
  then have "nat (int y - 1) = y - 1" by simp
  then show ?thesis using True by (auto simp: add_neighbor_def Let_def)
next
  case False
  then show ?thesis by (simp add: add_neighbor_def Let_def)
qed

lemma add_neighbor_down:
  "add_neighbor g x y (0, 1) acc
     = (if x < fullSize \<and> y + 1 < fullSize \<and> heightSet g ! ((y + 1) * fullSize + x)
        then (nearest (fst acc + heights g ! ((y + 1) * fullSize + x)), Suc (snd acc)) else acc)"
proof -
  have "nat (int y + 1) = y + 1" by simp
  then show ?thesis by (auto simp: add_neighbor_def Let_def)
qed

lemma add_neighbor_left:
  "add_neighbor g x y (-1, 0) acc
     = (if 0 < x \<and> x \<le> fullSize \<and> y < fullSize \<and> heightSet g ! (y * fullSize + (x - 1))
        then (nearest (fst acc + heights g ! (y * fullSize + (x - 1))), Suc (snd acc)) else acc)"
proof (cases "0 < x")
  case True
  then have "nat (int x - 1) = x - 1" by simp
  then show ?thesis using True by (auto simp: add_neighbor_def Let_def)
next
  case False
  then show ?thesis by (simp add: add_neighbor_def Let_def)
qed

lemma add_neighbor_right:
  "add_neighbor g x y (1, 0) acc
     = (if x + 1 < fullSize \<and> y < fullSize \<and> heightSet g ! (y * fullSize + (x + 1))
        then (nearest (fst acc + heights g ! (y * fullSize + (x + 1))), Suc (snd acc)) else acc)"
proof -
  have "nat (int x + 1) = x + 1" by simp
  then show ?thesis by (auto simp: add_neighbor_def Let_def)
qed

lemma neighbour_sum:
  assumes "x < fullSize" "y < fullSize"
  shows "fold (add_neighbor g x y) (neighbors x) (0, 0)
           = (rounded_sum (set_neighbour_heights g (chosen_neighbours x y)),
              length (set_neighbour_heights g (chosen_neighbours x y)))"
proof (cases "even x")
  case True
  then have n: "neighbors x = [(0, -1), (0, 1)]"
    by (simp add: neighbors_def even_iff_mod_2_eq_zero)
  have c: "chosen_neighbours x y
             = (if 0 < y then [(y - 1) * fullSize + x] else [])
               @ (if y + 1 < fullSize then [(y + 1) * fullSize + x] else [])"
    using True by (simp add: chosen_neighbours_def)
  have f: "fold (add_neighbor g x y) [(0, -1), (0, 1)] (0, 0)
             = add_neighbor g x y (0, 1) (add_neighbor g x y (0, -1) (0, 0))"
    by simp
  show ?thesis
    unfolding n c f set_neighbour_heights_def add_neighbor_up add_neighbor_down
    using assms
    by (cases "0 < y"; cases "y + 1 < fullSize";
        cases "heightSet g ! ((y - 1) * fullSize + x)";
        cases "heightSet g ! ((y + 1) * fullSize + x)") (simp_all add: rounded_sum_def)
next
  case False
  then have n: "neighbors x = [(-1, 0), (1, 0)]"
    by (simp add: neighbors_def even_iff_mod_2_eq_zero)
  have c: "chosen_neighbours x y
             = (if 0 < x then [y * fullSize + (x - 1)] else [])
               @ (if x + 1 < fullSize then [y * fullSize + (x + 1)] else [])"
    using False by (simp add: chosen_neighbours_def)
  have f: "fold (add_neighbor g x y) [(-1, 0), (1, 0)] (0, 0)
             = add_neighbor g x y (1, 0) (add_neighbor g x y (-1, 0) (0, 0))"
    by simp
  show ?thesis
    unfolding n c f set_neighbour_heights_def add_neighbor_left add_neighbor_right
    using assms
    by (cases "0 < x"; cases "x + 1 < fullSize";
        cases "heightSet g ! (y * fullSize + (x - 1))";
        cases "heightSet g ! (y * fullSize + (x + 1))") (simp_all add: rounded_sum_def)
qed

lemma interpolate_cell_spec:
  assumes "x < fullSize" "y < fullSize" "\<not> heightSet g ! (y * fullSize + x)"
  shows "interpolate_cell x y g
     = (if set_neighbour_heights g (chosen_neighbours x y) = [] then g
        else g\<lparr>heights := (heights g)[y * fullSize + x :=
                   rounded_average (set_neighbour_heights g (chosen_neighbours x y))],
               heightSet := (heightSet g)[y * fullSize + x := True]\<rparr>)"
  using assms(3)
  by (simp add: interpolate_cell_def Let_def neighbour_sum [OF assms(1,2)] rounded_average_def)

lemma interpolate_cell_set:
  "heightSet g ! (y * fullSize + x) \<Longrightarrow> interpolate_cell x y g = g"
  by (simp add: interpolate_cell_def)

lemma cell_steps_keep_set:
  assumes "heightSet g ! j"
  shows "heights (fold cell_step is g) ! j = heights g ! j \<and> heightSet (fold cell_step is g) ! j"
  using assms
proof (induction "is" arbitrary: g)
  case Nil
  then show ?case by simp
next
  case (Cons k "is")
  have step: "heights (cell_step k g) ! j = heights g ! j \<and> heightSet (cell_step k g) ! j"
  proof (cases "k = j")
    case True
    have "heightSet g ! (k div fullSize * fullSize + k mod fullSize)"
      using Cons.prems True by simp
    then have "cell_step k g = g"
      unfolding cell_step_def by (rule interpolate_cell_set)
    then show ?thesis using Cons.prems by simp
  next
    case False
    then show ?thesis using cell_step_frame [of j k g] Cons.prems by simp
  qed
  show ?case using Cons.IH [of "cell_step k g"] step by simp
qed

lemma interpolate_keeps_set:
  "heightSet g ! j \<Longrightarrow> heights (interpolate g) ! j = heights g ! j \<and> heightSet (interpolate g) ! j"
  by (simp add: interpolate_index_fold cell_steps_keep_set)

lemma cell_index:
  assumes "x < fullSize" "y < fullSize"
  shows "y * fullSize + x < fullSize * fullSize"
    and "(y * fullSize + x) mod fullSize = x" and "(y * fullSize + x) div fullSize = y"
proof -
  have "y * fullSize + x < y * fullSize + fullSize" using assms(1) by simp
  also have "\<dots> = Suc y * fullSize" by simp
  also have "\<dots> \<le> fullSize * fullSize"
    using assms(2) by (intro mult_le_mono1) simp
  finally show "y * fullSize + x < fullSize * fullSize" .
  show "(y * fullSize + x) mod fullSize = x" using assms(1) by simp
  show "(y * fullSize + x) div fullSize = y" using assms(1) by simp
qed

lemma interpolate_at_cell:
  assumes len: "length (heights g) = fullSize * fullSize" "length (heightSet g) = fullSize * fullSize"
    and xy: "x < fullSize" "y < fullSize"
    and unset: "\<not> heightSet g ! (y * fullSize + x)"
  shows "if set_neighbour_heights (when_visited g (interpolate g) (y * fullSize + x))
              (chosen_neighbours x y) = []
         then \<not> heightSet (interpolate g) ! (y * fullSize + x)
              \<and> heights (interpolate g) ! (y * fullSize + x) = heights g ! (y * fullSize + x)
         else heightSet (interpolate g) ! (y * fullSize + x)
              \<and> heights (interpolate g) ! (y * fullSize + x)
                  = rounded_average (set_neighbour_heights
                               (when_visited g (interpolate g) (y * fullSize + x))
                               (chosen_neighbours x y))"
proof -
  let ?n = "fullSize * fullSize" and ?i = "y * fullSize + x"
  let ?final = "interpolate g"
  let ?v = "fold cell_step [0..<?i] g"
  let ?A = "set_neighbour_heights ?v (chosen_neighbours x y)"
  have i: "?i < ?n" "?i mod fullSize = x" "?i div fullSize = y"
    using cell_index [OF xy] by simp_all
  have fin: "?final = fold cell_step [0..<?n] g" by (rule interpolate_index_fold)
  have v: "?v = when_visited g ?final ?i"
    unfolding fin by (rule visit_state [OF len i(1)])
  have split: "?final = fold cell_step [Suc ?i..<?n] (cell_step ?i ?v)"
    unfolding fin by (rule cell_steps_split [OF i(1)])
  have at_i: "heights ?final ! ?i = heights (cell_step ?i ?v) ! ?i"
    "heightSet ?final ! ?i = heightSet (cell_step ?i ?v) ! ?i"
    using cell_steps_frame [of ?i "[Suc ?i..<?n]" "cell_step ?i ?v"] split by simp_all
  have v_i: "heights ?v ! ?i = heights g ! ?i" "heightSet ?v ! ?i = heightSet g ! ?i"
    using cell_steps_frame [of ?i "[0..<?i]" g] by simp_all
  have lv: "length (heights ?v) = ?n" "length (heightSet ?v) = ?n"
    using cell_steps_length [of "[0..<?i]" g] len by simp_all
  have unset_v: "\<not> heightSet ?v ! ?i" using unset v_i(2) by simp
  have cs: "cell_step ?i ?v = interpolate_cell x y ?v"
    using i(2,3) by (simp add: cell_step_def)
  have step: "cell_step ?i ?v
     = (if ?A = [] then ?v
        else ?v\<lparr>heights := (heights ?v)[?i := rounded_average ?A],
                heightSet := (heightSet ?v)[?i := True]\<rparr>)"
    unfolding cs by (rule interpolate_cell_spec [OF xy unset_v])
  show ?thesis
  proof (cases "?A = []")
    case True
    then have "cell_step ?i ?v = ?v" using step by simp
    then show ?thesis using True at_i v_i unset v by simp
  next
    case False
    then have "heights (cell_step ?i ?v) ! ?i = rounded_average ?A"
      "heightSet (cell_step ?i ?v) ! ?i"
      using step lv i(1) by simp_all
    then show ?thesis using False at_i v by simp
  qed
qed

section \<open>Properties of the first pass of setHeightDataFromChunks\<close>

lemma fold_upt_invariant:
  assumes "a \<le> b" "I a s" "\<And>k s. a \<le> k \<Longrightarrow> k < b \<Longrightarrow> I k s \<Longrightarrow> I (Suc k) (f k s)"
  shows "I b (fold f [a..<b] s)"
  using assms
proof (induction b)
  case 0
  then show ?case by simp
next
  case (Suc b)
  show ?case
  proof (cases "a = Suc b")
    case True
    then show ?thesis using Suc.prems(2) by simp
  next
    case False
    then have ab: "a \<le> b" using Suc.prems(1) by simp
    have "I b (fold f [a..<b] s)"
      using Suc.IH [OF ab Suc.prems(2)] Suc.prems(3) by simp
    then have "I (Suc b) (f b (fold f [a..<b] s))"
      using Suc.prems(3) [of b] ab by simp
    then show ?thesis using ab by simp
  qed
qed

lemma nested_fold_index:
  "fold (\<lambda>a. fold (\<lambda>b. F a b) [0..<n]) [0..<m] g
     = fold (\<lambda>i. F (i div n) (i mod n)) [0..<m * n] g"
proof -
  have inner: "fold (\<lambda>b. F a b) [0..<n] h
                 = fold (\<lambda>i. F (i div n) (i mod n)) (map (\<lambda>b. a * n + b) [0..<n]) h" for a h
  proof -
    have "fold (\<lambda>b. F a b) [0..<n] h
            = fold ((\<lambda>i. F (i div n) (i mod n)) \<circ> (\<lambda>b. a * n + b)) [0..<n] h"
      by (rule fold_cong) auto
    then show ?thesis by (simp add: fold_map)
  qed
  have "fold (\<lambda>i. F (i div n) (i mod n)) [0..<m * n] g
          = fold (\<lambda>i. F (i div n) (i mod n))
              (concat (map (\<lambda>a. map (\<lambda>b. a * n + b) [0..<n]) [0..<m])) g"
    by (simp add: concat_rows_upt)
  also have "\<dots> = fold (\<lambda>a. fold (\<lambda>i. F (i div n) (i mod n)) (map (\<lambda>b. a * n + b) [0..<n])) [0..<m] g"
    by (simp add: fold_concat_rows fold_map comp_def)
  also have "\<dots> = fold (\<lambda>a. fold (\<lambda>b. F a b) [0..<n]) [0..<m] g"
    by (rule fold_cong) (auto simp: inner)
  finally show ?thesis by simp
qed

lemma col_loop_fold:
  "col_loop chunkX chunkY vs pos r cols s = fold (col_step chunkX chunkY vs pos r) cols s"
proof (induction cols arbitrary: s)
  case Nil
  then show ?case by (cases s) simp
next
  case (Cons col cols)
  obtain vi g where s: "s = (vi, g)" by (cases s)
  show ?case
  proof (cases "length vs \<le> vi")
    case True
    have stuck: "fold (col_step chunkX chunkY vs pos r) cs (vi, g) = (vi, g)" for cs
      using True by (induction cs) (simp_all add: col_step_def)
    show ?thesis using True s stuck [of "col # cols"] by simp
  next
    case False
    then show ?thesis using s Cons.IH by (simp add: col_step_def)
  qed
qed

lemma vindex_row_start: "vindex (Suc r) 0 = vindex r 0 + colCount r"
proof (cases "even r")
  case True
  then obtain k where "r = 2 * k" by (auto elim: evenE)
  then show ?thesis by (simp add: vindex_def colCount_def)
next
  case False
  then obtain k where "r = 2 * k + 1" by (auto elim: oddE)
  then show ?thesis by (simp add: vindex_def colCount_def)
qed

lemma vindex_col: "vindex r col = vindex r 0 + col"
  by (simp add: vindex_def)

lemma vindex_Suc: "vindex r (Suc col) = Suc (vindex r col)"
  by (simp add: vindex_def)

lemma vindex_17: "vindex 17 0 = 145"
  by (simp add: vindex_def)

text \<open>
  An invariant of the walk over the samples of one chunk, indexed by the number of sample
  sites passed: it is kept by every write that happens, and by every site the chunk has no
  sample for.
\<close>

lemma chunk_invariant:
  assumes start: "P 0 g"
    and call: "\<And>r col h. r < 17 \<Longrightarrow> col < colCount r \<Longrightarrow> vindex r col < length vs
                 \<Longrightarrow> P (vindex r col) h
                 \<Longrightarrow> P (Suc (vindex r col)) (place_vertex chunkX chunkY vs pos r col (vindex r col) h)"
    and skip: "\<And>k h. length vs \<le> k \<Longrightarrow> P k h \<Longrightarrow> P (Suc k) h"
  shows "P 145 (snd (fold (row_step chunkX chunkY vs pos) [0..<17] (0, g)))"
proof -
  define I where "I r s \<longleftrightarrow> P (vindex r 0) (snd s) \<and> fst s = min (vindex r 0) (length vs)"
    for r and s :: "nat \<times> grid"
  have row: "I (Suc r) (row_step chunkX chunkY vs pos r s)" if r: "r < 17" and s: "I r s" for r s
  proof -
    define J where "J c t \<longleftrightarrow> P (vindex r c) (snd t) \<and> fst t = min (vindex r c) (length vs)"
      for c and t :: "nat \<times> grid"
    have col: "J (Suc c) (col_step chunkX chunkY vs pos r c t)"
      if c: "c < colCount r" and t: "J c t" for c t
    proof (cases "length vs \<le> fst t")
      case True
      have ft: "fst t = min (vindex r c) (length vs)" using t by (simp add: J_def)
      then have le: "length vs \<le> vindex r c" using True by simp
      have "P (Suc (vindex r c)) (snd t)" using skip [OF le] t by (simp add: J_def)
      moreover have "fst t = min (Suc (vindex r c)) (length vs)" using ft le by simp
      ultimately show ?thesis using True by (simp add: J_def col_step_def vindex_Suc)
    next
      case False
      then have vi: "fst t = vindex r c" "vindex r c < length vs" using t by (auto simp: J_def)
      have "P (Suc (vindex r c)) (place_vertex chunkX chunkY vs pos r c (vindex r c) (snd t))"
        using call [OF r c vi(2)] t by (simp add: J_def)
      moreover have "Suc (fst t) = min (Suc (vindex r c)) (length vs)" using vi by simp
      ultimately show ?thesis using False vi(1) by (simp add: J_def col_step_def vindex_Suc)
    qed
    have "J 0 s" using s by (simp add: I_def J_def)
    then have "J (colCount r) (fold (col_step chunkX chunkY vs pos r) [0..<colCount r] s)"
      by (rule fold_upt_invariant [where I = J, OF le0]) (use col in simp)
    then show ?thesis
      using vindex_row_start [of r] vindex_col [of r "colCount r"]
      by (simp add: I_def J_def row_step_def col_loop_fold)
  qed
  have "I 0 (0, g)" using start by (simp add: I_def vindex_def)
  then have "I 17 (fold (row_step chunkX chunkY vs pos) [0..<17] (0, g))"
    by (rule fold_upt_invariant [where I = I, OF le0]) (use row in simp)
  then show ?thesis by (simp add: I_def vindex_17)
qed

lemma fullSize_257: "fullSize = 257"
  by (simp add: fullSize_def chunksPerSide_def vertsPerChunk_def)

lemma target_bound:
  assumes "chunkX < 16" "chunkY < 16" "r < 17" "col < colCount r"
  shows "target chunkX chunkY r col < fullSize * fullSize"
proof -
  let ?lx = "if r mod 2 \<noteq> 0 then col * 2 + 1 else col * 2"
  have lx: "chunkY * 16 + ?lx < fullSize"
    using assms(2,4) by (auto simp: colCount_def fullSize_257 split: if_splits)
  have gy: "chunkX * 16 + r < fullSize" using assms(1,3) by (simp add: fullSize_257)
  have "target chunkX chunkY r col < (chunkX * 16 + r) * fullSize + fullSize"
    using lx by (simp add: target_def)
  also have "\<dots> = Suc (chunkX * 16 + r) * fullSize" by simp
  also have "\<dots> \<le> fullSize * fullSize" using gy by (intro mult_le_mono1) simp
  finally show ?thesis .
qed

lemma place_vertex_eq:
  assumes "chunkX < 16" "chunkY < 16" "r < 17" "col < colCount r"
  shows "place_vertex chunkX chunkY vs pos r col vi g
     = (if heightSet g ! target chunkX chunkY r col then g
        else g\<lparr>heights := (heights g)[target chunkX chunkY r col := nearest (vs ! vi + snd (snd pos))],
               heightSet := (heightSet g)[target chunkX chunkY r col := True],
               runMin := (if js_lt (Fin (nearest (vs ! vi + snd (snd pos)))) (runMin g)
                          then Fin (nearest (vs ! vi + snd (snd pos))) else runMin g),
               runMax := (if js_lt (runMax g) (Fin (nearest (vs ! vi + snd (snd pos))))
                          then Fin (nearest (vs ! vi + snd (snd pos))) else runMax g)\<rparr>)"
proof -
  have "chunkY * 16 + (if r mod 2 \<noteq> 0 then col * 2 + 1 else col * 2) < 257"
    "(if r mod 2 \<noteq> 0 then col * 2 + 1 else col * 2) < 17"
    using assms(2,4) by (auto simp: colCount_def split: if_splits)
  moreover have "chunkX * 16 + r < 257" using assms(1,3) by simp
  ultimately show ?thesis
    using assms(3)
    by (simp add: place_vertex_def target_def Let_def fullSize_257 vertsPerChunk_def)
qed

lemma place_vertex_ok:
  assumes "chunkX < 16" "chunkY < 16" "r < 17" "col < colCount r" "grid_ok g"
  shows "grid_ok (place_vertex chunkX chunkY vs pos r col vi g)"
  using assms(5) by (simp add: place_vertex_eq [OF assms(1-4)] grid_ok_def)

lemma place_vertex_mono:
  assumes "chunkX < 16" "chunkY < 16" "r < 17" "col < colCount r" "heightSet g ! j"
  shows "heightSet (place_vertex chunkX chunkY vs pos r col vi g) ! j"
    and "heights (place_vertex chunkX chunkY vs pos r col vi g) ! j = heights g ! j"
proof -
  have ne: "\<not> heightSet g ! target chunkX chunkY r col \<Longrightarrow> j \<noteq> target chunkX chunkY r col"
    using assms(5) by auto
  show "heightSet (place_vertex chunkX chunkY vs pos r col vi g) ! j"
  proof (cases "heightSet g ! target chunkX chunkY r col")
    case True
    then show ?thesis using assms(5) by (simp add: place_vertex_eq [OF assms(1-4)])
  next
    case False
    then show ?thesis using assms(5) ne by (simp add: place_vertex_eq [OF assms(1-4)])
  qed
  show "heights (place_vertex chunkX chunkY vs pos r col vi g) ! j = heights g ! j"
  proof (cases "heightSet g ! target chunkX chunkY r col")
    case True
    then show ?thesis by (simp add: place_vertex_eq [OF assms(1-4)])
  next
    case False
    then show ?thesis using ne by (simp add: place_vertex_eq [OF assms(1-4)])
  qed
qed

lemma place_vertex_sets_target:
  assumes "chunkX < 16" "chunkY < 16" "r < 17" "col < colCount r" "grid_ok g"
  shows "heightSet (place_vertex chunkX chunkY vs pos r col vi g) ! target chunkX chunkY r col"
  using assms(5) target_bound [OF assms(1-4)]
  by (simp add: place_vertex_eq [OF assms(1-4)] grid_ok_def)

lemma fill_index_fold: "fill_from_chunks chunks g = fold (chunk_step chunks) [0..<256] g"
  unfolding fill_from_chunks_def chunksPerSide_def chunk_step_def
  using nested_fold_index [of "process_chunk chunks" 16 16 g] by simp

lemma chunk_step_eq:
  "chunk_step chunks n g
     = (case (if n < length chunks then chunks ! n else None) of
          None \<Rightarrow> g
        | Some c \<Rightarrow>
            (case vertices c of
               None \<Rightarrow> g
             | Some vs \<Rightarrow> snd (fold (row_step (n div 16) (n mod 16) vs (position c)) [0..<17] (0, g))))"
  by (auto simp: chunk_step_def process_chunk_def chunksPerSide_def Let_def split: option.splits)

text \<open>An invariant of the first pass: it is kept by every write that happens.\<close>

lemma fill_invariant:
  assumes start: "P g"
    and call: "\<And>n c vs r col h. n < 256 \<Longrightarrow> n < length chunks \<Longrightarrow> chunks ! n = Some c
                 \<Longrightarrow> vertices c = Some vs \<Longrightarrow> r < 17 \<Longrightarrow> col < colCount r
                 \<Longrightarrow> vindex r col < length vs \<Longrightarrow> P h
                 \<Longrightarrow> P (place_vertex (n div 16) (n mod 16) vs (position c) r col (vindex r col) h)"
  shows "P (fill_from_chunks chunks g)"
proof -
  have step: "P (chunk_step chunks n h)" if n: "n < 256" and h: "P h" for n h
  proof (cases "n < length chunks")
    case False
    then show ?thesis using h n by (simp add: chunk_step_eq)
  next
    case True
    show ?thesis
    proof (cases "chunks ! n")
      case None
      then show ?thesis using h n True by (simp add: chunk_step_eq)
    next
      case (Some c)
      show ?thesis
      proof (cases "vertices c")
        case None
        then show ?thesis using h n True Some by (simp add: chunk_step_eq)
      next
        case (Some vs)
        have "P (snd (fold (row_step (n div 16) (n mod 16) vs (position c)) [0..<17] (0, h)))"
          using chunk_invariant [where P = "\<lambda>k. P" and g = h and vs = vs
              and chunkX = "n div 16" and chunkY = "n mod 16" and pos = "position c"]
            h call [OF n True \<open>chunks ! n = Some c\<close> Some]
          by blast
        then show ?thesis using n True \<open>chunks ! n = Some c\<close> Some by (simp add: chunk_step_eq)
      qed
    qed
  qed
  have "P (fold (chunk_step chunks) [0..<256] g)"
    by (rule fold_upt_invariant [where I = "\<lambda>k. P", OF le0 start]) (use step in simp)
  then show ?thesis by (simp add: fill_index_fold)
qed

lemma initial_grid_ok: "grid_ok (initial_grid w)"
  by (simp add: grid_ok_def initial_grid_def)

lemma fill_grid_ok: "grid_ok g \<Longrightarrow> grid_ok (fill_from_chunks chunks g)"
  by (rule fill_invariant [where P = grid_ok]) (simp_all add: place_vertex_ok)

lemma fill_unset_zero:
  assumes "grid_ok g" "\<forall>j < fullSize * fullSize. \<not> heightSet g ! j \<longrightarrow> heights g ! j = 0"
  shows "\<forall>j < fullSize * fullSize. \<not> heightSet (fill_from_chunks chunks g) ! j
           \<longrightarrow> heights (fill_from_chunks chunks g) ! j = 0"
proof -
  let ?P = "\<lambda>h. grid_ok h \<and> (\<forall>j < fullSize * fullSize. \<not> heightSet h ! j \<longrightarrow> heights h ! j = 0)"
  have "?P (fill_from_chunks chunks g)"
  proof (rule fill_invariant [where P = ?P])
    show "?P g" using assms by simp
  next
    fix n r col :: nat and c :: chunk and vs :: "real list" and h :: grid
    assume n: "n < 256" and r: "r < 17" and col: "col < colCount r" and h: "?P h"
    have c: "n div 16 < 16" "n mod 16 < 16" using n by simp_all
    let ?t = "target (n div 16) (n mod 16) r col"
    have t: "?t < fullSize * fullSize" by (rule target_bound [OF c r col])
    show "?P (place_vertex (n div 16) (n mod 16) vs (position c) r col (vindex r col) h)"
    proof (cases "heightSet h ! ?t")
      case True
      then show ?thesis using h by (simp add: place_vertex_eq [OF c r col])
    next
      case False
      then show ?thesis
        using h t by (simp add: place_vertex_eq [OF c r col] grid_ok_def nth_list_update)
    qed
  qed
  then show ?thesis by simp
qed

lemma initial_unset_zero:
  "\<forall>j < fullSize * fullSize. \<not> heightSet (fill_from_chunks chunks (initial_grid w)) ! j
           \<longrightarrow> heights (fill_from_chunks chunks (initial_grid w)) ! j = 0"
  by (rule fill_unset_zero) (simp_all add: initial_grid_ok, simp add: initial_grid_def)

lemma when_visited_nth:
  assumes "length (heightSet final) = n" "length (heightSet g) = n"
    "length (heights final) = n" "length (heights g) = n" "i \<le> n" "k < n"
  shows "heightSet (when_visited g final i) ! k = (if k < i then heightSet final ! k else heightSet g ! k)"
    and "heights (when_visited g final i) ! k = (if k < i then heights final ! k else heights g ! k)"
  using assms by (auto simp: when_visited_def nth_append)

lemma interpolate_length:
  "length (heights (interpolate g)) = length (heights g)"
  "length (heightSet (interpolate g)) = length (heightSet g)"
  "runMin (interpolate g) = runMin g" "runMax (interpolate g) = runMax g"
  using cell_steps_length [of "[0..<fullSize * fullSize]" g]
  by (simp_all add: interpolate_index_fold)

lemma chosen_neighbours_cases:
  assumes "k \<in> set (chosen_neighbours x y)"
  shows "even x \<and> 0 < y \<and> k = (y - 1) * fullSize + x
       \<or> even x \<and> y + 1 < fullSize \<and> k = (y + 1) * fullSize + x
       \<or> odd x \<and> 0 < x \<and> k = y * fullSize + (x - 1)
       \<or> odd x \<and> x + 1 < fullSize \<and> k = y * fullSize + (x + 1)"
proof (cases "even x")
  case True
  show ?thesis
  proof (cases y)
    case 0
    then show ?thesis
      using assms True by (cases "1 < fullSize") (simp_all add: chosen_neighbours_def)
  next
    case (Suc y')
    then show ?thesis
      using assms True by (cases "Suc (Suc y') < fullSize") (auto simp: chosen_neighbours_def)
  qed
next
  case False
  then obtain x' where x: "x = Suc x'" by (cases x) auto
  show ?thesis
    using assms False unfolding x
    by (cases "Suc (Suc x') < fullSize") (auto simp: chosen_neighbours_def)
qed

lemma chosen_neighbours_bound:
  assumes "x < fullSize" "y < fullSize" "k \<in> set (chosen_neighbours x y)"
  shows "k < fullSize * fullSize"
proof -
  have "(y - 1) * fullSize + x < fullSize * fullSize"
    using cell_index(1) [of x "y - 1"] assms(1,2) by simp
  moreover have "y + 1 < fullSize \<Longrightarrow> (y + 1) * fullSize + x < fullSize * fullSize"
    using cell_index(1) [of x "y + 1"] assms(1) by simp
  moreover have "y * fullSize + (x - 1) < fullSize * fullSize"
    using cell_index(1) [of "x - 1" y] assms(1,2) by simp
  moreover have "x + 1 < fullSize \<Longrightarrow> y * fullSize + (x + 1) < fullSize * fullSize"
    using cell_index(1) [of "x + 1" y] assms(2) by simp
  ultimately show ?thesis using chosen_neighbours_cases [OF assms(3)] by blast
qed

lemma visited_before:
  assumes len: "length (heights g) = fullSize * fullSize" "length (heightSet g) = fullSize * fullSize"
    and "i < fullSize * fullSize" "k < i" "heightSet g ! k"
  shows "heightSet (when_visited g (interpolate g) i) ! k"
    and "heights (when_visited g (interpolate g) i) ! k = heights g ! k"
proof -
  have k: "k < fullSize * fullSize" using assms(3,4) by simp
  have keep: "heights (interpolate g) ! k = heights g ! k" "heightSet (interpolate g) ! k"
    using interpolate_keeps_set [OF assms(5)] by simp_all
  show "heightSet (when_visited g (interpolate g) i) ! k"
    using when_visited_nth(1) [of "interpolate g" "fullSize * fullSize" g i k]
      interpolate_length [of g] len assms(3,4) k keep by simp
  show "heights (when_visited g (interpolate g) i) ! k = heights g ! k"
    using when_visited_nth(2) [of "interpolate g" "fullSize * fullSize" g i k]
      interpolate_length [of g] len assms(3,4) k keep by simp
qed

lemma visited_after:
  assumes len: "length (heights g) = fullSize * fullSize" "length (heightSet g) = fullSize * fullSize"
    and "i \<le> k" "k < fullSize * fullSize"
  shows "heightSet (when_visited g (interpolate g) i) ! k = heightSet g ! k"
    and "heights (when_visited g (interpolate g) i) ! k = heights g ! k"
  using when_visited_nth [of "interpolate g" "fullSize * fullSize" g i k]
    interpolate_length [of g] len assms(3,4) by simp_all

lemma average_vertical:
  assumes len: "length (heights g) = fullSize * fullSize" "length (heightSet g) = fullSize * fullSize"
    and xy: "x < fullSize" "Suc (Suc y') < fullSize" and ev: "even x"
    and up: "heightSet g ! (y' * fullSize + x)" and down: "heightSet g ! (Suc (Suc y') * fullSize + x)"
  shows "set_neighbour_heights (when_visited g (interpolate g) (Suc y' * fullSize + x))
           (chosen_neighbours x (Suc y'))
         = [heights g ! (y' * fullSize + x), heights g ! (Suc (Suc y') * fullSize + x)]"
proof -
  let ?i = "Suc y' * fullSize + x"
  let ?v = "when_visited g (interpolate g) ?i"
  have y: "Suc y' < fullSize" "y' < fullSize" using xy(2) by simp_all
  have i: "?i < fullSize * fullSize" by (rule cell_index(1) [OF xy(1) y(1)])
  have d: "Suc (Suc y') * fullSize + x < fullSize * fullSize" by (rule cell_index(1) [OF xy])
  have lt: "y' * fullSize + x < ?i" using xy(2) by simp
  have le: "?i \<le> Suc (Suc y') * fullSize + x" by simp
  have u: "heightSet ?v ! (y' * fullSize + x)"
    "heights ?v ! (y' * fullSize + x) = heights g ! (y' * fullSize + x)"
    using visited_before [OF len i lt up] by simp_all
  have dn: "heightSet ?v ! (Suc (Suc y') * fullSize + x)"
    "heights ?v ! (Suc (Suc y') * fullSize + x) = heights g ! (Suc (Suc y') * fullSize + x)"
    using visited_after [OF len le d] down by simp_all
  have c: "chosen_neighbours x (Suc y') = [y' * fullSize + x, Suc (Suc y') * fullSize + x]"
    using ev xy(2) by (simp add: chosen_neighbours_def)
  show ?thesis
    unfolding c set_neighbour_heights_def using u dn by simp
qed

lemma average_horizontal:
  assumes len: "length (heights g) = fullSize * fullSize" "length (heightSet g) = fullSize * fullSize"
    and xy: "Suc (Suc x') < fullSize" "y < fullSize" and od: "odd (Suc x')"
    and left: "heightSet g ! (y * fullSize + x')" and right: "heightSet g ! (y * fullSize + Suc (Suc x'))"
  shows "set_neighbour_heights (when_visited g (interpolate g) (y * fullSize + Suc x'))
           (chosen_neighbours (Suc x') y)
         = [heights g ! (y * fullSize + x'), heights g ! (y * fullSize + Suc (Suc x'))]"
proof -
  let ?i = "y * fullSize + Suc x'"
  let ?v = "when_visited g (interpolate g) ?i"
  have x: "Suc x' < fullSize" "x' < fullSize" using xy(1) by simp_all
  have i: "?i < fullSize * fullSize" by (rule cell_index(1) [OF x(1) xy(2)])
  have r: "y * fullSize + Suc (Suc x') < fullSize * fullSize" by (rule cell_index(1) [OF xy])
  have lt: "y * fullSize + x' < ?i" by simp
  have le: "?i \<le> y * fullSize + Suc (Suc x')" by simp
  have l: "heightSet ?v ! (y * fullSize + x')"
    "heights ?v ! (y * fullSize + x') = heights g ! (y * fullSize + x')"
    using visited_before [OF len i lt left] by simp_all
  have rt: "heightSet ?v ! (y * fullSize + Suc (Suc x'))"
    "heights ?v ! (y * fullSize + Suc (Suc x')) = heights g ! (y * fullSize + Suc (Suc x'))"
    using visited_after [OF len le r] right by simp_all
  have c: "chosen_neighbours (Suc x') y = [y * fullSize + x', y * fullSize + Suc (Suc x')]"
    using od xy(1) by (simp add: chosen_neighbours_def)
  show ?thesis
    unfolding c set_neighbour_heights_def using l rt by simp
qed

lemma build_grid_eq: "build_grid chunks w = interpolate (fill_from_chunks chunks (initial_grid w))"
  by (simp add: build_grid_def)

text \<open>
  The second pass on any grid of the right size: what it does to a cell that is unset when
  it starts.
\<close>

lemma interpolate_cell_by_parity:
  assumes len: "length (heights g) = fullSize * fullSize" "length (heightSet g) = fullSize * fullSize"
    and xy: "x < fullSize" "y < fullSize"
    and unset: "\<not> heightSet g ! (y * fullSize + x)"
  shows "(let final = interpolate g; i = y * fullSize + x;
              avail = set_neighbour_heights (when_visited g final i) (chosen_neighbours x y)
          in (if avail = [] then \<not> heightSet final ! i \<and> heights final ! i = heights g ! i
              else heightSet final ! i \<and> heights final ! i = rounded_average avail)
           \<and> (even x \<and> 0 < y \<and> y + 1 < fullSize
                \<and> heightSet g ! ((y - 1) * fullSize + x) \<and> heightSet g ! ((y + 1) * fullSize + x)
               \<longrightarrow> heightSet final ! i
                   \<and> heights final ! i
                       = nearest (nearest (nearest (0 + heights g ! ((y - 1) * fullSize + x))
                                  + heights g ! ((y + 1) * fullSize + x)) / 2))
           \<and> (odd x \<and> x + 1 < fullSize
                \<and> heightSet g ! (y * fullSize + (x - 1)) \<and> heightSet g ! (y * fullSize + (x + 1))
               \<longrightarrow> heightSet final ! i
                   \<and> heights final ! i
                       = nearest (nearest (nearest (0 + heights g ! (y * fullSize + (x - 1)))
                                  + heights g ! (y * fullSize + (x + 1))) / 2))
           \<and> (g = fill_from_chunks chunks (initial_grid w) \<and> avail = []
               \<longrightarrow> \<not> heightSet final ! i \<and> heights final ! i = 0))"
proof -
  let ?final = "interpolate g" and ?i = "y * fullSize + x"
  let ?avail = "set_neighbour_heights (when_visited g ?final ?i) (chosen_neighbours x y)"
  have general: "if ?avail = [] then \<not> heightSet ?final ! ?i \<and> heights ?final ! ?i = heights g ! ?i
      else heightSet ?final ! ?i \<and> heights ?final ! ?i = rounded_average ?avail"
    by (rule interpolate_at_cell [OF len xy unset])
  have vertical: "heightSet ?final ! ?i
      \<and> heights ?final ! ?i
          = nearest (nearest (nearest (0 + heights g ! ((y - 1) * fullSize + x))
                                  + heights g ! ((y + 1) * fullSize + x)) / 2)"
    if h: "even x" "0 < y" "y + 1 < fullSize"
      "heightSet g ! ((y - 1) * fullSize + x)" "heightSet g ! ((y + 1) * fullSize + x)"
  proof -
    obtain y' where y': "y = Suc y'" using h(2) by (cases y) auto
    have "?avail = [heights g ! (y' * fullSize + x), heights g ! (Suc (Suc y') * fullSize + x)]"
      using average_vertical [OF len xy(1) _ h(1), of y'] h(3,4,5) unfolding y' by simp
    then show ?thesis using general unfolding y' by (simp add: rounded_average_def rounded_sum_def)
  qed
  have horizontal: "heightSet ?final ! ?i
      \<and> heights ?final ! ?i
          = nearest (nearest (nearest (0 + heights g ! (y * fullSize + (x - 1)))
                                  + heights g ! (y * fullSize + (x + 1))) / 2)"
    if h: "odd x" "x + 1 < fullSize"
      "heightSet g ! (y * fullSize + (x - 1))" "heightSet g ! (y * fullSize + (x + 1))"
  proof -
    obtain x' where x': "x = Suc x'" using h(1) by (cases x) auto
    have "?avail = [heights g ! (y * fullSize + x'), heights g ! (y * fullSize + Suc (Suc x'))]"
      using average_horizontal [OF len _ xy(2), of x'] h unfolding x' by simp
    then show ?thesis using general unfolding x' by (simp add: rounded_average_def rounded_sum_def)
  qed
  have zero: "\<not> heightSet ?final ! ?i \<and> heights ?final ! ?i = 0"
    if h: "g = fill_from_chunks chunks (initial_grid w)" "?avail = []"
  proof -
    have "heights g ! ?i = 0"
      using initial_unset_zero [of chunks w] unset cell_index(1) [OF xy] h(1) by simp
    then show ?thesis using general h(2) by simp
  qed
  show ?thesis
    unfolding Let_def using general vertical horizontal zero by blast
qed

lemma setHeightDataFromChunks_heights:
  "heightData (setHeightDataFromChunks chunks w) = heights (build_grid chunks w)"
  by (simp add: setHeightDataFromChunks_def Let_def)

lemma fill_doubles:
  "\<forall>j < fullSize * fullSize.
     nearest (heights (fill_from_chunks chunks (initial_grid w)) ! j)
     = heights (fill_from_chunks chunks (initial_grid w)) ! j"
proof -
  let ?P = "\<lambda>h. grid_ok h \<and> (\<forall>j < fullSize * fullSize. nearest (heights h ! j) = heights h ! j)"
  have "?P (fill_from_chunks chunks (initial_grid w))"
  proof (rule fill_invariant [where P = ?P])
    show "?P (initial_grid w)" by (simp add: initial_grid_ok) (simp add: initial_grid_def)
  next
    fix n r col :: nat and c :: chunk and vs :: "real list" and h :: grid
    assume n: "n < 256" and s: "r < 17" "col < colCount r" and h: "?P h"
    have cc: "n div 16 < 16" "n mod 16 < 16" using n by simp_all
    let ?t = "target (n div 16) (n mod 16) r col"
    have t: "?t < fullSize * fullSize" by (rule target_bound [OF cc s])
    show "?P (place_vertex (n div 16) (n mod 16) vs (position c) r col (vindex r col) h)"
    proof (cases "heightSet h ! ?t")
      case True
      then show ?thesis using h by (simp add: place_vertex_eq [OF cc s])
    next
      case False
      then show ?thesis
        using h t by (simp add: place_vertex_eq [OF cc s] grid_ok_def nth_list_update)
    qed
  qed
  then show ?thesis by simp
qed


text \<open>The first pass on a tile with one short chunk.\<close>

lemma chunk_steps_past_end:
  assumes "\<forall>n \<in> set ns. length chunks \<le> n"
  shows "fold (chunk_step chunks) ns g = g"
  using assms by (induction ns) (simp_all add: chunk_step_eq)

lemma row_steps_exhausted:
  assumes "length vs \<le> vi"
  shows "fold (row_step chunkX chunkY vs pos) rs (vi, g) = (vi, g)"
proof -
  have stuck: "fold (col_step chunkX chunkY vs pos r) cs (vi, g) = (vi, g)" for r cs
    using assms by (induction cs) (simp_all add: col_step_def)
  show ?thesis
    by (induction rs) (simp_all add: row_step_def col_loop_fold stuck)
qed

lemma col_loop_exhausted:
  "length vs \<le> vi \<Longrightarrow> col_loop chunkX chunkY vs pos r cols (vi, g) = (vi, g)"
  by (cases cols) simp_all

lemma two_sample_first_pass:
  "fill_from_chunks two_sample_tile (initial_grid new_R16Writer)
     = \<lparr>heights = (replicate (fullSize * fullSize) 0)[0 := 11, 2 := 21],
        heightSet = (replicate (fullSize * fullSize) False)[0 := True, 2 := True],
        runMin = Fin 11, runMax = Fin 21\<rparr>"
proof -
  let ?g = "initial_grid new_R16Writer"
  let ?vs = "[10, 20 :: real]" and ?pos = "(0, 0, 1) :: real \<times> real \<times> real"
  let ?g1 = "\<lparr>heights = (replicate (fullSize * fullSize) (0 :: real))[0 := 11],
         heightSet = (replicate (fullSize * fullSize) False)[0 := True],
         runMin = Fin 11, runMax = Fin 11\<rparr>"
  let ?g2 = "\<lparr>heights = (replicate (fullSize * fullSize) (0 :: real))[0 := 11, 2 := 21],
        heightSet = (replicate (fullSize * fullSize) False)[0 := True, 2 := True],
        runMin = Fin 11, runMax = Fin 21\<rparr>"
  have split: "[0..<256] = 0 # [Suc 0..<256]" by (simp add: upt_conv_Cons)
  have rest: "fold (chunk_step two_sample_tile) [Suc 0..<256] g = g" for g
    by (rule chunk_steps_past_end) (simp add: two_sample_tile_def)
  have rows: "[0..<17] = 0 # [1..<17]" by (simp add: upt_conv_Cons)
  have cols: "[0..<colCount 0] = 0 # 1 # [2..<9]"
    by (simp add: colCount_def upt_conv_Cons)
  have c: "(0 :: nat) < 16" "(0 :: nat) < 17" "0 < colCount 0" "1 < colCount 0"
    by (simp_all add: colCount_def)
  have t: "target 0 0 0 0 = 0" "target 0 0 0 1 = 2" by (simp_all add: target_def)
  have p0: "place_vertex 0 0 ?vs ?pos 0 0 0 ?g = ?g1"
    unfolding place_vertex_eq [OF c(1,1,2,3)] t
    by (simp add: initial_grid_def new_R16Writer_def fullSize_257)
  have p1: "place_vertex 0 0 ?vs ?pos 0 1 1 ?g1 = ?g2"
    unfolding place_vertex_eq [OF c(1,1,2,4)] t by (simp add: fullSize_257)
  have s1: "col_loop 0 0 ?vs ?pos 0 (0 # 1 # [2..<9]) (0, ?g)
              = col_loop 0 0 ?vs ?pos 0 (1 # [2..<9]) (1, ?g1)"
    by (simp add: p0)
  have s2: "col_loop 0 0 ?vs ?pos 0 (1 # [2..<9]) (1, ?g1)
              = col_loop 0 0 ?vs ?pos 0 [2..<9] (2, ?g2)"
    using p1 by (simp add: numeral_2_eq_2)
  have s3: "col_loop 0 0 ?vs ?pos 0 [2..<9] (2, ?g2) = (2, ?g2)"
    by (rule col_loop_exhausted) simp
  have row0: "row_step 0 0 ?vs ?pos 0 (0, ?g) = (2, ?g2)"
    unfolding row_step_def cols s1 s2 s3 ..
  have later: "fold (row_step 0 0 ?vs ?pos) rs (2, ?g2) = (2, ?g2)" for rs
    by (rule row_steps_exhausted) simp
  have chunk0: "chunk_step two_sample_tile 0 ?g = ?g2"
    unfolding chunk_step_eq rows
    by (simp add: two_sample_tile_def row0 later)
  show ?thesis
    unfolding fill_index_fold split by (simp add: rest chunk0)
qed


section \<open>A fully populated tile\<close>

lemma vindex_bound:
  assumes "r < 17" "col < colCount r"
  shows "vindex r col < 145"
proof (cases "even r")
  case True
  then obtain k where k: "r = 2 * k" by (auto elim: evenE)
  then have "k \<le> 8" using assms(1) by simp
  then show ?thesis using assms(2) k by (simp add: vindex_def colCount_def)
next
  case False
  then obtain k where k: "r = 2 * k + 1" by (auto elim: oddE)
  then have "k \<le> 7" using assms(1) by simp
  then show ?thesis using assms(2) k by (simp add: vindex_def colCount_def)
qed

lemma vindex_inj:
  assumes "col < colCount r" "col' < colCount r'" "vindex r col = vindex r' col'"
  shows "r = r' \<and> col = col'"
proof -
  have d: "r div 2 = r' div 2"
  proof -
    have b: "9 * (r mod 2) + col < 17" "9 * (r' mod 2) + col' < 17"
      using assms(1,2) by (auto simp: colCount_def split: if_splits)
    have "17 * (r div 2) + (9 * (r mod 2) + col) = 17 * (r' div 2) + (9 * (r' mod 2) + col')"
      using assms(3) by (simp add: vindex_def add.assoc)
    then show ?thesis using b by linarith
  qed
  then have e: "9 * (r mod 2) + col = 9 * (r' mod 2) + col'"
    using assms(3) by (simp add: vindex_def)
  have m: "r mod 2 = r' mod 2"
  proof (rule ccontr)
    assume "r mod 2 \<noteq> r' mod 2"
    then consider "r mod 2 = 0" "r' mod 2 = 1" | "r mod 2 = 1" "r' mod 2 = 0" by linarith
    then show False
    proof cases
      case 1
      then show ?thesis using e assms(1) by (simp add: colCount_def)
    next
      case 2
      then show ?thesis using e assms(2) by (simp add: colCount_def)
    qed
  qed
  have "r = r'" using d m by (metis div_mult_mod_eq)
  then show ?thesis using e by simp
qed

lemma cell_site:
  assumes "x < fullSize" "y < fullSize" "even (x + y)"
  shows "\<exists>chunkX chunkY r col. chunkX < 16 \<and> chunkY < 16 \<and> r < 17 \<and> col < colCount r
           \<and> target chunkX chunkY r col = y * fullSize + x"
proof -
  define chunkX where "chunkX = min 15 (y div 16)"
  define chunkY where "chunkY = min 15 (x div 16)"
  define r where "r = y - 16 * chunkX"
  define lx where "lx = x - 16 * chunkY"
  define col where "col = lx div 2"
  have x: "x \<le> 256" and y: "y \<le> 256" using assms(1,2) by (simp_all add: fullSize_257)
  have c: "chunkX < 16" "chunkY < 16" by (simp_all add: chunkX_def chunkY_def)
  have ry: "chunkX * 16 + r = y" "r \<le> 16" using y by (auto simp: r_def chunkX_def min_def)
  have lxx: "chunkY * 16 + lx = x" "lx \<le> 16" using x by (auto simp: lx_def chunkY_def min_def)
  have par: "even r \<longleftrightarrow> even lx"
  proof -
    have "even y \<longleftrightarrow> even r" using ry(1) by (metis even_add even_mult_iff even_numeral)
    moreover have "even x \<longleftrightarrow> even lx" using lxx(1) by (metis even_add even_mult_iff even_numeral)
    ultimately show ?thesis using assms(3) by auto
  qed
  have col: "col < colCount r" "(if r mod 2 \<noteq> 0 then col * 2 + 1 else col * 2) = lx"
  proof -
    show "col < colCount r"
    proof (cases "even r")
      case True
      then show ?thesis using lxx(2) by (simp add: col_def colCount_def even_iff_mod_2_eq_zero)
    next
      case False
      then have "odd lx" using par by simp
      then have "lx \<le> 15" using lxx(2) by (cases "lx = 16") auto
      then show ?thesis using False by (simp add: col_def colCount_def even_iff_mod_2_eq_zero)
    qed
    show "(if r mod 2 \<noteq> 0 then col * 2 + 1 else col * 2) = lx"
    proof (cases "even r")
      case True
      then have "even lx" using par by simp
      then show ?thesis using True by (auto simp: col_def even_iff_mod_2_eq_zero)
    next
      case False
      then have "odd lx" using par by simp
      then have "lx div 2 * 2 + 1 = lx" by (simp add: odd_two_times_div_two_succ mult.commute)
      then show ?thesis using False by (simp add: col_def even_iff_mod_2_eq_zero)
    qed
  qed
  have "target chunkX chunkY r col = y * fullSize + x"
    using ry(1) lxx(1) col(2) by (simp add: target_def)
  then show ?thesis using c ry(2) col(1) by (intro exI [of _ chunkX] exI [of _ chunkY] exI [of _ r] exI [of _ col]) simp
qed

lemma rows_set_site:
  assumes ok: "grid_ok g" and c: "chunkX < 16" "chunkY < 16"
    and site: "r < 17" "col < colCount r" "vindex r col < length vs"
  shows "heightSet (snd (fold (row_step chunkX chunkY vs pos) [0..<17] (0, g)))
           ! target chunkX chunkY r col"
proof -
  let ?t = "target chunkX chunkY r col"
  let ?P = "\<lambda>k h. grid_ok h \<and> (vindex r col < k \<longrightarrow> heightSet h ! ?t)"
  have "?P 145 (snd (fold (row_step chunkX chunkY vs pos) [0..<17] (0, g)))"
  proof (rule chunk_invariant [where P = ?P])
    show "?P 0 g" using ok by simp
  next
    fix r' col' :: nat and h :: grid
    assume s: "r' < 17" "col' < colCount r'" and h: "?P (vindex r' col') h"
    let ?h = "place_vertex chunkX chunkY vs pos r' col' (vindex r' col') h"
    have ok': "grid_ok ?h" using place_vertex_ok [OF c s] h by simp
    have "heightSet ?h ! ?t" if lt: "vindex r col < Suc (vindex r' col')"
    proof (cases "vindex r col = vindex r' col'")
      case True
      then have "r = r'" "col = col'" using vindex_inj [OF site(2) s(2)] by simp_all
      then show ?thesis using place_vertex_sets_target [OF c s] h by simp
    next
      case False
      then have "heightSet h ! ?t" using lt h by simp
      then show ?thesis by (rule place_vertex_mono(1) [OF c s])
    qed
    then show "?P (Suc (vindex r' col')) ?h" using ok' by simp
  next
    fix k :: nat and h :: grid
    assume "length vs \<le> k" "?P k h"
    then show "?P (Suc k) h" using site(3) by simp
  qed
  then show ?thesis using vindex_bound [OF site(1,2)] by simp
qed

lemma chunk_step_mono:
  assumes "grid_ok g" "n < 256"
  shows "grid_ok (chunk_step chunks n g) \<and> (heightSet g ! j \<longrightarrow> heightSet (chunk_step chunks n g) ! j)"
proof -
  let ?P = "\<lambda>h. grid_ok h \<and> (heightSet g ! j \<longrightarrow> heightSet h ! j)"
  have c: "n div 16 < 16" "n mod 16 < 16" using assms(2) by simp_all
  have rows: "?P (snd (fold (row_step (n div 16) (n mod 16) vs pos) [0..<17] (0, g)))" for vs pos
  proof (rule chunk_invariant [where P = "\<lambda>k. ?P"])
    show "?P g" using assms(1) by simp
  next
    fix r col :: nat and h :: grid
    assume s: "r < 17" "col < colCount r" and h: "?P h"
    show "?P (place_vertex (n div 16) (n mod 16) vs pos r col (vindex r col) h)"
      using place_vertex_ok [OF c s] place_vertex_mono(1) [OF c s] h by blast
  qed simp
  show ?thesis
    using rows assms(1) by (simp add: chunk_step_eq split: option.splits)
qed

lemma fill_sets_even_cells:
  assumes full: "fully_populated chunks" and ok: "grid_ok g"
    and xy: "x < fullSize" "y < fullSize" "even (x + y)"
  shows "heightSet (fill_from_chunks chunks g) ! (y * fullSize + x)"
proof -
  obtain chunkX chunkY r col where s: "chunkX < 16" "chunkY < 16" "r < 17" "col < colCount r"
    "target chunkX chunkY r col = y * fullSize + x"
    using cell_site [OF xy] by blast
  define n where "n = chunkX * 16 + chunkY"
  have n: "n < 256" "n div 16 = chunkX" "n mod 16 = chunkY" using s(1,2) by (simp_all add: n_def)
  obtain c vs where cv: "chunks ! n = Some c" "vertices c = Some vs" "145 \<le> length vs"
    using full n(1) by (auto simp: fully_populated_def)
  have len: "n < length chunks" using full n(1) by (simp add: fully_populated_def)
  let ?t = "y * fullSize + x"
  let ?I = "\<lambda>k h. grid_ok h \<and> (n < k \<longrightarrow> heightSet h ! ?t)"
  have step: "?I (Suc k) (chunk_step chunks k h)" if k: "k < 256" and h: "?I k h" for k h
  proof (cases "k = n")
    case True
    have "vindex r col < length vs" using vindex_bound [OF s(3,4)] cv(3) by simp
    then have "heightSet (snd (fold (row_step chunkX chunkY vs (position c)) [0..<17] (0, h))) ! ?t"
      using rows_set_site [OF _ s(1,2,3,4), of h vs "position c"] h s(5) by simp
    then have "heightSet (chunk_step chunks k h) ! ?t"
      using True len cv n by (simp add: chunk_step_eq)
    then show ?thesis using chunk_step_mono [OF _ k, of h chunks] h by simp
  next
    case False
    then show ?thesis using chunk_step_mono [OF _ k, of h chunks ?t] h by auto
  qed
  have "?I 256 (fold (chunk_step chunks) [0..<256] g)"
    by (rule fold_upt_invariant [where I = ?I, OF le0]) (use ok step in simp_all)
  then show ?thesis using n(1) by (simp add: fill_index_fold)
qed

lemma set_neighbour_heights_nonempty:
  "k \<in> set ns \<Longrightarrow> heightSet g ! k \<Longrightarrow> set_neighbour_heights g ns \<noteq> []"
  by (auto simp: set_neighbour_heights_def filter_empty_conv)

lemma build_all_set:
  assumes full: "fully_populated chunks" and i: "i < fullSize * fullSize"
  shows "heightSet (interpolate (fill_from_chunks chunks (initial_grid w))) ! i"
proof -
  let ?g = "fill_from_chunks chunks (initial_grid w)"
  define x where "x = i mod fullSize"
  define y where "y = i div fullSize"
  have fs: "0 < fullSize" by (simp add: fullSize_257)
  have xy: "x < fullSize" "y < fullSize" "i = y * fullSize + x"
    using i fs by (simp_all add: x_def y_def less_mult_imp_div_less)
  have ok: "grid_ok ?g" by (rule fill_grid_ok [OF initial_grid_ok])
  then have len: "length (heights ?g) = fullSize * fullSize" "length (heightSet ?g) = fullSize * fullSize"
    by (simp_all add: grid_ok_def)
  show ?thesis
  proof (cases "heightSet ?g ! i")
    case True
    then show ?thesis using interpolate_keeps_set by blast
  next
    case False
    then have odd_sum: "odd (x + y)"
      using fill_sets_even_cells [OF full initial_grid_ok xy(1,2), of w] xy(3) by auto
    let ?v = "when_visited ?g (interpolate ?g) i"
    have "\<exists>k \<in> set (chosen_neighbours x y). heightSet ?v ! k"
    proof (cases "even x")
      case True
      then have "odd y" using odd_sum by simp
      then have y1: "y + 1 < fullSize" using xy(2) by (cases "y = 256") (auto simp: fullSize_257)
      let ?k = "(y + 1) * fullSize + x"
      have k: "?k < fullSize * fullSize" by (rule cell_index(1) [OF xy(1) y1])
      have "even (x + (y + 1))" using odd_sum by simp
      then have "heightSet ?g ! ?k"
        by (rule fill_sets_even_cells [OF full initial_grid_ok xy(1) y1])
      moreover have "i \<le> ?k" using xy(3) by simp
      ultimately have "heightSet ?v ! ?k" using visited_after(1) [OF len _ k] by simp
      moreover have "?k \<in> set (chosen_neighbours x y)"
        using True y1 by (simp add: chosen_neighbours_def)
      ultimately show ?thesis by blast
    next
      case False
      then have x1: "x + 1 < fullSize" using xy(1) by (cases "x = 256") (auto simp: fullSize_257)
      let ?k = "y * fullSize + (x + 1)"
      have k: "?k < fullSize * fullSize" by (rule cell_index(1) [OF x1 xy(2)])
      have "even (x + 1 + y)" using odd_sum by simp
      then have "heightSet ?g ! ?k"
        by (rule fill_sets_even_cells [OF full initial_grid_ok x1 xy(2)])
      moreover have "i \<le> ?k" using xy(3) by simp
      ultimately have "heightSet ?v ! ?k" using visited_after(1) [OF len _ k] by simp
      moreover have "?k \<in> set (chosen_neighbours x y)"
        using False x1 by (simp add: chosen_neighbours_def)
      ultimately show ?thesis by blast
    qed
    then have ne: "set_neighbour_heights ?v (chosen_neighbours x y) \<noteq> []"
      using set_neighbour_heights_nonempty by blast
    have "\<not> heightSet ?g ! (y * fullSize + x)" using \<open>\<not> heightSet ?g ! i\<close> xy(3) by simp
    then show ?thesis
      using interpolate_at_cell [OF len xy(1,2)] ne xy(3) by (simp split: if_splits)
  qed
qed

lemma place_vertex_range_ok:
  assumes c: "chunkX < 16" "chunkY < 16" "r < 17" "col < colCount r" and ok: "range_ok g"
  shows "range_ok (place_vertex chunkX chunkY vs pos r col vi g)"
proof (cases "heightSet g ! target chunkX chunkY r col")
  case True
  then show ?thesis using ok by (simp add: place_vertex_eq [OF c])
next
  case False
  let ?t = "target chunkX chunkY r col" and ?v = "nearest (vs ! vi + snd (snd pos))"
  let ?n = "fullSize * fullSize"
  let ?g = "place_vertex chunkX chunkY vs pos r col vi g"
  have t: "?t < ?n" by (rule target_bound [OF c])
  have gok: "grid_ok g" using ok by (simp add: range_ok_def)
  have len: "length (heights g) = ?n" "length (heightSet g) = ?n" using gok by (simp_all add: grid_ok_def)
  have g': "heights ?g = (heights g)[?t := ?v]" "heightSet ?g = (heightSet g)[?t := True]"
    "runMin ?g = (if js_lt (Fin ?v) (runMin g) then Fin ?v else runMin g)"
    "runMax ?g = (if js_lt (runMax g) (Fin ?v) then Fin ?v else runMax g)"
    using False by (simp_all add: place_vertex_eq [OF c])
  have at_t: "heightSet ?g ! ?t" "heights ?g ! ?t = ?v" using t len by (simp_all add: g')
  have other: "heightSet ?g ! j = heightSet g ! j" "heights ?g ! j = heights g ! j" if "j \<noteq> ?t" for j
    using that by (simp_all add: g')
  have gok': "grid_ok ?g" by (rule place_vertex_ok [OF c gok])
  have dv: "nearest ?v = ?v" by simp
  consider (empty) "runMin g = PosInf" "runMax g = NegInf" "\<forall>j < ?n. \<not> heightSet g ! j"
    | (some) m M where "runMin g = Fin m" "runMax g = Fin M" "heights_between m M g"
        "\<exists>j < ?n. heightSet g ! j \<and> heights g ! j = m" "\<exists>j < ?n. heightSet g ! j \<and> heights g ! j = M"
        "nearest m = m" "nearest M = M"
    using ok by (auto simp: range_ok_def)
  then show ?thesis
  proof cases
    case empty
    have mm: "runMin ?g = Fin ?v" "runMax ?g = Fin ?v" using empty by (simp_all add: g')
    have "heights_between ?v ?v ?g"
      unfolding heights_between_def
    proof (intro allI impI)
      fix j assume j: "j < ?n" "heightSet ?g ! j"
      then have "j = ?t" using other(1) [of j] empty(3) by auto
      then show "?v \<le> heights ?g ! j \<and> heights ?g ! j \<le> ?v" using at_t by simp
    qed
    then show ?thesis
      using gok' mm at_t t dv unfolding range_ok_def by blast
  next
    case some
    define m' where "m' = (if ?v < m then ?v else m)"
    define M' where "M' = (if M < ?v then ?v else M)"
    have mm: "runMin ?g = Fin m'" "runMax ?g = Fin M'"
      using some(1,2) by (simp_all add: g' m'_def M'_def)
    have b: "heights_between m' M' ?g"
      unfolding heights_between_def
    proof (intro allI impI)
      fix j assume j: "j < ?n" "heightSet ?g ! j"
      show "m' \<le> heights ?g ! j \<and> heights ?g ! j \<le> M'"
      proof (cases "j = ?t")
        case True
        then show ?thesis using at_t by (simp add: m'_def M'_def)
      next
        case False
        then have "heightSet g ! j" "heights ?g ! j = heights g ! j" using other j by simp_all
        then have "m \<le> heights ?g ! j \<and> heights ?g ! j \<le> M"
          using some(3) j(1) by (simp add: heights_between_def)
        then show ?thesis by (simp add: m'_def M'_def)
      qed
    qed
    have lo: "\<exists>j < ?n. heightSet ?g ! j \<and> heights ?g ! j = m'"
    proof (cases "?v < m")
      case True
      then show ?thesis using at_t t by (auto simp: m'_def)
    next
      case False
      obtain j where j: "j < ?n" "heightSet g ! j" "heights g ! j = m" using some(4) by blast
      then have "j \<noteq> ?t" using \<open>\<not> heightSet g ! ?t\<close> by auto
      then show ?thesis using j other False by (auto simp: m'_def)
    qed
    have hi: "\<exists>j < ?n. heightSet ?g ! j \<and> heights ?g ! j = M'"
    proof (cases "M < ?v")
      case True
      then show ?thesis using at_t t by (auto simp: M'_def)
    next
      case False
      obtain j where j: "j < ?n" "heightSet g ! j" "heights g ! j = M" using some(5) by blast
      then have "j \<noteq> ?t" using \<open>\<not> heightSet g ! ?t\<close> by auto
      then show ?thesis using j other False by (auto simp: M'_def)
    qed
    have dm: "nearest m' = m'" "nearest M' = M'"
      using some(6,7) dv by (simp_all add: m'_def M'_def)
    show ?thesis using gok' mm b lo hi dm unfolding range_ok_def by blast
  qed
qed

lemma fill_range_ok: "range_ok g \<Longrightarrow> range_ok (fill_from_chunks chunks g)"
  by (rule fill_invariant [where P = range_ok]) (simp_all add: place_vertex_range_ok)

lemma initial_range_ok:
  "minHeight w = PosInf \<Longrightarrow> maxHeight w = NegInf \<Longrightarrow> range_ok (initial_grid w)"
  by (simp add: range_ok_def grid_ok_def initial_grid_def)

lemma fill_from_samples:
  assumes "\<forall>j < fullSize * fullSize. heightSet g ! j \<longrightarrow> heights g ! j \<in> samples chunks" "grid_ok g"
  shows "\<forall>j < fullSize * fullSize. heightSet (fill_from_chunks chunks g) ! j
           \<longrightarrow> heights (fill_from_chunks chunks g) ! j \<in> samples chunks"
proof -
  let ?P = "\<lambda>h. grid_ok h
     \<and> (\<forall>j < fullSize * fullSize. heightSet h ! j \<longrightarrow> heights h ! j \<in> samples chunks)"
  have "?P (fill_from_chunks chunks g)"
  proof (rule fill_invariant [where P = ?P])
    show "?P g" using assms by simp
  next
    fix n r col :: nat and c :: chunk and vs :: "real list" and h :: grid
    assume n: "n < 256" "n < length chunks" "chunks ! n = Some c" "vertices c = Some vs"
      and s: "r < 17" "col < colCount r" "vindex r col < length vs" and h: "?P h"
    have cc: "n div 16 < 16" "n mod 16 < 16" using n(1) by simp_all
    let ?t = "target (n div 16) (n mod 16) r col"
    let ?v = "nearest (vs ! vindex r col + snd (snd (position c)))"
    have v: "?v \<in> samples chunks" using n s(3) unfolding samples_def by blast
    have t: "?t < fullSize * fullSize" by (rule target_bound [OF cc s(1,2)])
    show "?P (place_vertex (n div 16) (n mod 16) vs (position c) r col (vindex r col) h)"
    proof (cases "heightSet h ! ?t")
      case True
      then show ?thesis using h by (simp add: place_vertex_eq [OF cc s(1,2)])
    next
      case False
      then show ?thesis
        using h t v by (simp add: place_vertex_eq [OF cc s(1,2)] grid_ok_def nth_list_update)
    qed
  qed
  then show ?thesis by simp
qed

lemma interpolate_invariant:
  assumes "P g" and step: "\<And>x y h. x < fullSize \<Longrightarrow> y < fullSize \<Longrightarrow> P h \<Longrightarrow> P (interpolate_cell x y h)"
  shows "P (interpolate g)"
proof -
  have fs: "0 < fullSize" by (simp add: fullSize_257)
  have "P (cell_step i h)" if "i < fullSize * fullSize" "P h" for i h
    unfolding cell_step_def using that fs by (intro step) (simp_all add: less_mult_imp_div_less)
  then have "P (fold cell_step [0..<fullSize * fullSize] g)"
    by (intro fold_upt_invariant [where I = "\<lambda>k. P"]) (use assms(1) in simp_all)
  then show ?thesis by (simp add: interpolate_index_fold)
qed

lemma rounded_average_between:
  assumes "A \<noteq> []" "length A \<le> 2" "\<forall>a \<in> set A. m \<le> a \<and> a \<le> M"
    and d: "nearest m = m" "nearest M = M"
  shows "m \<le> rounded_average A \<and> rounded_average A \<le> M"
proof -
  consider a where "A = [a]" | a b where "A = [a, b]"
    using assms(1,2) by (cases A; cases "tl A"; cases "tl (tl A)") auto
  then show ?thesis
  proof cases
    case 1
    have "m \<le> nearest a \<and> nearest a \<le> M"
      by (rule nearest_between [OF _ _ d]) (use assms(3) 1 in simp_all)
    then have "m \<le> nearest (nearest a) \<and> nearest (nearest a) \<le> M" by simp
    then show ?thesis by (simp add: 1 rounded_average_def rounded_sum_def)
  next
    case 2
    have a: "m \<le> nearest a \<and> nearest a \<le> M"
      by (rule nearest_between [OF _ _ d]) (use assms(3) 2 in simp_all)
    have b: "m \<le> b" "b \<le> M" using assms(3) 2 by simp_all
    have s: "2 * m \<le> nearest (nearest a + b) \<and> nearest (nearest a + b) \<le> 2 * M"
      by (rule nearest_between [OF _ _ nearest_twice [OF d(1)] nearest_twice [OF d(2)]])
        (use a b in simp_all)
    have "m \<le> nearest (nearest (nearest a + b) / 2) \<and> nearest (nearest (nearest a + b) / 2) \<le> M"
      by (rule nearest_between [OF _ _ d]) (use s in simp_all)
    then show ?thesis by (simp add: 2 rounded_average_def rounded_sum_def)
  qed
qed

lemma set_neighbour_heights_length:
  "length (set_neighbour_heights g (chosen_neighbours x y)) \<le> 2"
proof -
  have "length (set_neighbour_heights g ns) \<le> length ns" for ns
    by (simp add: set_neighbour_heights_def)
  moreover have "length (chosen_neighbours x y) \<le> 2" by (simp add: chosen_neighbours_def)
  ultimately show ?thesis using le_trans by blast
qed

lemma interpolate_cell_between:
  assumes ok: "grid_ok h" and b: "heights_between m M h" and xy: "x < fullSize" "y < fullSize"
    and d: "nearest m = m" "nearest M = M"
  shows "grid_ok (interpolate_cell x y h) \<and> heights_between m M (interpolate_cell x y h)"
proof (cases "heightSet h ! (y * fullSize + x)")
  case True
  then show ?thesis using ok b by (simp add: interpolate_cell_set)
next
  case False
  let ?A = "set_neighbour_heights h (chosen_neighbours x y)"
  let ?i = "y * fullSize + x"
  show ?thesis
  proof (cases "?A = []")
    case True
    then show ?thesis using ok b interpolate_cell_spec [OF xy False] by simp
  next
    case ne: False
    have "\<forall>a \<in> set ?A. m \<le> a \<and> a \<le> M"
      using b chosen_neighbours_bound [OF xy]
      by (auto simp: set_neighbour_heights_def heights_between_def)
    then have avg: "m \<le> rounded_average ?A \<and> rounded_average ?A \<le> M"
      by (intro rounded_average_between [OF ne set_neighbour_heights_length _ d])
    have eq: "interpolate_cell x y h
                = h\<lparr>heights := (heights h)[?i := rounded_average ?A],
                     heightSet := (heightSet h)[?i := True]\<rparr>"
      using interpolate_cell_spec [OF xy False] ne by simp
    have "heights_between m M (interpolate_cell x y h)"
      unfolding heights_between_def eq
    proof (intro allI impI)
      fix j assume j: "j < fullSize * fullSize"
        "heightSet (h\<lparr>heights := (heights h)[?i := rounded_average ?A],
                     heightSet := (heightSet h)[?i := True]\<rparr>) ! j"
      show "m \<le> heights (h\<lparr>heights := (heights h)[?i := rounded_average ?A],
                     heightSet := (heightSet h)[?i := True]\<rparr>) ! j
          \<and> heights (h\<lparr>heights := (heights h)[?i := rounded_average ?A],
                     heightSet := (heightSet h)[?i := True]\<rparr>) ! j \<le> M"
      proof (cases "j = ?i")
        case True
        then show ?thesis using avg ok j(1) by (simp add: grid_ok_def)
      next
        case False
        then show ?thesis using b j by (simp add: heights_between_def)
      qed
    qed
    moreover have "grid_ok (interpolate_cell x y h)" using ok by (simp add: eq grid_ok_def)
    ultimately show ?thesis by simp
  qed
qed

lemma interpolate_between:
  assumes "grid_ok g" "heights_between m M g" "nearest m = m" "nearest M = M"
  shows "heights_between m M (interpolate g)"
proof -
  have "grid_ok (interpolate g) \<and> heights_between m M (interpolate g)"
  proof (rule interpolate_invariant [where P = "\<lambda>h. grid_ok h \<and> heights_between m M h"])
    show "grid_ok g \<and> heights_between m M g" using assms(1,2) by simp
  next
    fix x y h
    assume "x < fullSize" "y < fullSize" "grid_ok h \<and> heights_between m M h"
    then show "grid_ok (interpolate_cell x y h) \<and> heights_between m M (interpolate_cell x y h)"
      using interpolate_cell_between [OF _ _ _ _ assms(3,4)] by blast
  qed
  then show ?thesis by simp
qed

lemma fill_range_fully_populated:
  assumes full: "fully_populated chunks" and fresh: "minHeight w = PosInf" "maxHeight w = NegInf"
  shows "\<exists>m M. runMin (fill_from_chunks chunks (initial_grid w)) = Fin m
           \<and> runMax (fill_from_chunks chunks (initial_grid w)) = Fin M
           \<and> heights_between m M (fill_from_chunks chunks (initial_grid w))
           \<and> nearest m = m \<and> nearest M = M
           \<and> (\<exists>j < fullSize * fullSize. heightSet (fill_from_chunks chunks (initial_grid w)) ! j
                  \<and> heights (fill_from_chunks chunks (initial_grid w)) ! j = m)
           \<and> (\<exists>j < fullSize * fullSize. heightSet (fill_from_chunks chunks (initial_grid w)) ! j
                  \<and> heights (fill_from_chunks chunks (initial_grid w)) ! j = M)"
proof -
  let ?g = "fill_from_chunks chunks (initial_grid w)"
  have r: "range_ok ?g" by (rule fill_range_ok [OF initial_range_ok [OF fresh]])
  have "heightSet ?g ! (0 * fullSize + 0)"
    by (rule fill_sets_even_cells [OF full initial_grid_ok]) (simp_all add: fullSize_257)
  then have "\<not> (\<forall>j < fullSize * fullSize. \<not> heightSet ?g ! j)"
    by (auto simp: fullSize_257 intro: exI [of _ 0])
  then show ?thesis using r unfolding range_ok_def by blast
qed


text \<open>
  A witness: the flat tile, whose samples all have the height \<open>7 + 3\<close>.
\<close>

lemma flat_tile_samples: "samples flat_tile \<subseteq> {10}"
  by (auto simp: samples_def flat_tile_def)


lemma setHeightDataFromChunks_range:
  "minHeight (setHeightDataFromChunks chunks w) = runMin (fill_from_chunks chunks (initial_grid w))"
  "maxHeight (setHeightDataFromChunks chunks w) = runMax (fill_from_chunks chunks (initial_grid w))"
  by (simp_all add: setHeightDataFromChunks_def build_grid_eq Let_def interpolate_length)

lemma ridge_tile_nth:
  "n < 256 \<Longrightarrow> ridge_tile ! n
     = Some \<lparr>vertices = Some ((if n = 1 then 1000 else 0) # replicate 144 0), position = (0, 0, 0)\<rparr>"
  by (simp add: ridge_tile_def)

lemma ridge_tile_full: "fully_populated ridge_tile"
  by (simp add: fully_populated_def ridge_tile_def)

lemma ridge_tile_sample: "1000 \<in> samples ridge_tile"
proof -
  let ?c = "\<lparr>vertices = Some ((if (1::nat) = 1 then 1000 else 0) # replicate 144 (0::real)),
             position = (0, 0, 0)\<rparr>"
  have "\<exists>n c vs vi. (1000::real) = nearest (vs ! vi + snd (snd (position c))) \<and> n < 256
          \<and> n < length ridge_tile \<and> ridge_tile ! n = Some c \<and> vertices c = Some vs \<and> vi < length vs"
    by (intro exI [of _ "1::nat"] exI [of _ ?c] exI [of _ "1000 # replicate 144 0"] exI [of _ "0::nat"])
      (simp add: ridge_tile_nth, simp add: ridge_tile_def)
  then show ?thesis unfolding samples_def by blast
qed

lemma ridge_tile_max:
  "runMax (fill_from_chunks ridge_tile (initial_grid new_R16Writer)) = NegInf
   \<or> runMax (fill_from_chunks ridge_tile (initial_grid new_R16Writer)) = Fin 0"
proof -
  let ?Q = "\<lambda>(k::nat) h. grid_ok h \<and> (runMax h = NegInf \<or> runMax h = Fin 0)
              \<and> (1 \<le> k \<longrightarrow> heightSet h ! 16)"
  have step: "?Q (Suc k) (chunk_step ridge_tile k h)" if k: "k < 256" and h: "?Q k h" for k :: nat and h
  proof -
    let ?vs = "(if k = 1 then 1000 else 0) # replicate 144 (0::real)"
    let ?pos = "(0, 0, 0) :: real \<times> real \<times> real"
    let ?h = "snd (fold (row_step (k div 16) (k mod 16) ?vs ?pos) [0..<17] (0, h))"
    have cs: "chunk_step ridge_tile k h = ?h"
      using k by (simp add: chunk_step_eq ridge_tile_nth) (simp add: ridge_tile_def)
    have c: "k div 16 < 16" "k mod 16 < 16" using k by simp_all
    have inv: "?Q k ?h"
    proof (rule chunk_invariant [where P = "\<lambda>j. ?Q k"])
      show "?Q k h" by (rule h)
    next
      fix r col :: nat and h' :: grid
      assume s: "r < 17" "col < colCount r" "vindex r col < length ?vs" and h': "?Q k h'"
      let ?p = "place_vertex (k div 16) (k mod 16) ?vs ?pos r col (vindex r col) h'"
      have ok: "grid_ok ?p" using place_vertex_ok [OF c s(1,2)] h' by simp
      have mono: "1 \<le> k \<longrightarrow> heightSet ?p ! 16"
        using place_vertex_mono(1) [OF c s(1,2)] h' by blast
      have "runMax ?p = NegInf \<or> runMax ?p = Fin 0"
      proof (cases "k = 1 \<and> vindex r col = 0")
        case True
        have "vindex 0 0 = vindex r col" using True by (simp add: vindex_def)
        then have rc: "r = 0" "col = 0"
          using vindex_inj [of 0 0 col r] s(2) by (simp_all add: colCount_def)
        have tgt: "target (k div 16) (k mod 16) r col = 16"
          using True rc by (simp add: target_def)
        have "heightSet h' ! 16" using h' True by simp
        then have "?p = h'"
          unfolding place_vertex_eq [OF c s(1,2)] tgt by simp
        then show ?thesis using h' by simp
      next
        case False
        have "?vs ! vindex r col = 0"
        proof (cases "vindex r col")
          case 0
          then show ?thesis using False by simp
        next
          case (Suc j)
          then show ?thesis using s(3) by simp
        qed
        then show ?thesis
          using h' by (auto simp: place_vertex_eq [OF c s(1,2)])
      qed
      then show "?Q k ?p" using ok mono by simp
    qed simp
    have first: "heightSet ?h ! 16" if "k = 0"
    proof -
      have "heightSet ?h ! target (k div 16) (k mod 16) 0 8"
        by (rule rows_set_site [OF _ c]) (use h in \<open>simp_all add: colCount_def vindex_def\<close>)
      then show ?thesis using that by (simp add: target_def)
    qed
    have "1 \<le> Suc k \<longrightarrow> heightSet ?h ! 16"
      using inv first by (cases "k = 0") simp_all
    then show ?thesis using inv cs by simp
  qed
  have "runMax (initial_grid new_R16Writer) = NegInf"
    by (simp add: initial_grid_def new_R16Writer_def)
  then have "?Q 0 (initial_grid new_R16Writer)"
    using initial_grid_ok [of new_R16Writer] by simp
  then have "?Q 256 (fold (chunk_step ridge_tile) [0..<256] (initial_grid new_R16Writer))"
    by (rule fold_upt_invariant [where I = ?Q, OF le0]) (use step in simp)
  then show ?thesis by (simp add: fill_index_fold)
qed


section \<open>Properties of the tile export\<close>

lemma export_tile_range:
  assumes "globalMinHeight st = fst (foldl fold_range g0 (r16Writers st))"
    and "globalMaxHeight st = snd (foldl fold_range g0 (r16Writers st))"
  shows "globalMinHeight (export_tile env i index st)
           = fst (foldl fold_range g0 (r16Writers (export_tile env i index st)))
     \<and> globalMaxHeight (export_tile env i index st)
           = snd (foldl fold_range g0 (r16Writers (export_tile env i index st)))"
proof (cases "adt_export env index")
  case (Export_failed msg)
  then show ?thesis using assms by (simp add: export_tile_def)
next
  case (Exported descriptor populate)
  then show ?thesis
    using assms by (simp add: export_tile_def Let_def fold_range_def)
qed

lemma pass1_loop_range:
  assumes "globalMinHeight st = fst (foldl fold_range g0 (r16Writers st))"
    and "globalMaxHeight st = snd (foldl fold_range g0 (r16Writers st))"
  shows "globalMinHeight (pass1_loop env i tiles st)
           = fst (foldl fold_range g0 (r16Writers (pass1_loop env i tiles st)))
     \<and> globalMaxHeight (pass1_loop env i tiles st)
           = snd (foldl fold_range g0 (r16Writers (pass1_loop env i tiles st)))"
  using assms
proof (induction tiles arbitrary: i st)
  case Nil
  then show ?case by simp
next
  case (Cons index rest)
  show ?case
  proof (cases "cancelled_pass1 env i")
    case True
    then show ?thesis using Cons.prems by simp
  next
    case False
    have step: "globalMinHeight (export_tile env i index st)
           = fst (foldl fold_range g0 (r16Writers (export_tile env i index st)))"
      "globalMaxHeight (export_tile env i index st)
           = snd (foldl fold_range g0 (r16Writers (export_tile env i index st)))"
      using export_tile_range [OF Cons.prems] by simp_all
    show ?thesis
      using False Cons.IH [OF step] by simp
  qed
qed

lemma pass1_global_range:
  "globalMinHeight (pass1_loop env 0 tiles initial_job)
     = fst (global_range (r16Writers (pass1_loop env 0 tiles initial_job)))
   \<and> globalMaxHeight (pass1_loop env 0 tiles initial_job)
     = snd (global_range (r16Writers (pass1_loop env 0 tiles initial_job)))"
  unfolding global_range_def
  by (rule pass1_loop_range) (simp_all add: initial_job_def)

lemma pass2_cancelled_at_start:
  "cancelled_pass2 env i \<Longrightarrow> pass2_loop env gmin gmax i ws st = st"
  by (cases ws) simp_all

text \<open>
  Claim C1, amended. If cancellation is asserted when pass 2 begins (the poll at the head
  of its first iteration answers true) and pass 1 collected at least one heightmap writer,
  then no heightmap file is written; the metadata file is written all the same, when the
  file system allows it, with \<open>tile_count\<close> the number of writers collected and the global
  range of pass 1.
\<close>

theorem exportSelectedMap_cancelled_before_pass2:
  assumes "cancelled_pass2 env 0"
    and "r16Writers (pass1_loop env 0 exportTiles initial_job) \<noteq> []"
  shows "\<exists>res. exportSelectedMap env exportTiles = Some res
     \<and> heightmaps res = []
     \<and> manifest res =
         (if manifest_ok env then
            Some \<lparr>tile_count = length (r16Writers (pass1_loop env 0 exportTiles initial_job)),
                  min_height = fst (global_range (r16Writers (pass1_loop env 0 exportTiles initial_job))),
                  max_height = snd (global_range (r16Writers (pass1_loop env 0 exportTiles initial_job))),
                  range = js_sub
                    (snd (global_range (r16Writers (pass1_loop env 0 exportTiles initial_job))))
                    (fst (global_range (r16Writers (pass1_loop env 0 exportTiles initial_job))))\<rparr>
          else None)"
proof -
  let ?st = "pass1_loop env 0 exportTiles initial_job"
  have ne: "exportTiles \<noteq> []"
    using assms(2) by (auto simp: initial_job_def)
  have g: "globalMinHeight ?st = fst (global_range (r16Writers ?st))"
    "globalMaxHeight ?st = snd (global_range (r16Writers ?st))"
    using pass1_global_range [of env exportTiles] by simp_all
  have p2: "pass2_loop env (globalMinHeight ?st) (globalMaxHeight ?st) 0 (r16Writers ?st)
              \<lparr>files = [], marks2 = []\<rparr> = \<lparr>files = [], marks2 = []\<rparr>"
    by (rule pass2_cancelled_at_start [OF assms(1)])
  show ?thesis
    using ne assms(2) p2 g by (simp add: exportSelectedMap_def Let_def)
qed

text \<open>
  A witness, which is also the counterexample to the claim as stated: one tile, heightmaps
  enabled, the export succeeds and fills its writer, cancellation is asserted after pass 1.
  No heightmap is written, and the metadata file is.
\<close>

theorem exportSelectedMap_cancelled_before_pass2_witness:
  "cancelled_pass2 cancelled_job 0
   \<and> length (r16Writers (pass1_loop cancelled_job 0 [2096] initial_job)) = 1
   \<and> map_option heightmaps (exportSelectedMap cancelled_job [2096]) = Some []
   \<and> map_option manifest (exportSelectedMap cancelled_job [2096])
        = Some (Some \<lparr>tile_count = 1, min_height = Fin 0, max_height = Fin 1, range = Fin 1\<rparr>)"
  using exportSelectedMap_cancelled_before_pass2 [of cancelled_job "[2096]"]
  by (simp add: cancelled_job_def exportSelectedMap_def export_tile_def initial_job_def
      new_R16Writer_def Let_def)

theorem exportSelectedMap_cancelled_counterexample:
  "cancelled_pass2 cancelled_job 0
   \<and> r16Writers (pass1_loop cancelled_job 0 [2096] initial_job) \<noteq> []
   \<and> exportSelectedMap cancelled_job [2096]
       = Some \<lparr>heightmaps = [],
               manifest = Some \<lparr>tile_count = 1, min_height = Fin 0, max_height = Fin 1, range = Fin 1\<rparr>,
               exportPaths = [''ADT:adt_32_48.obj''],
               helper_marks = [\<lparr>mark_item = ''maps/azeroth/azeroth'', mark_state = True,
                                mark_failure = None\<rparr>]\<rparr>"
  by (simp add: cancelled_job_def exportSelectedMap_def export_tile_def initial_job_def
      new_R16Writer_def Let_def)


lemma pass1_failed_tile:
  assumes "\<not> cancelled_pass1 env i" "adt_export env index = Export_failed msg"
  shows "pass1_loop env i (index # rest) st
           = pass1_loop env (Suc i) rest (st\<lparr>marks := marks st @ [tile_failed env msg]\<rparr>)"
  using assms by (simp add: export_tile_def tile_failed_def)

lemma pass1_exported_tile:
  assumes "\<not> cancelled_pass1 env i" "adt_export env index = Exported descriptor populate"
    "mapsExportHeightmap env"
  shows "pass1_loop env i (index # rest) st
           = pass1_loop env (Suc i) rest
               (st\<lparr>adtExports := adtExports st @ [(descriptor, i)],
                   r16Writers := r16Writers st @ [populate new_R16Writer],
                   globalMinHeight := fst (fold_range (globalMinHeight st, globalMaxHeight st)
                                             (populate new_R16Writer)),
                   globalMaxHeight := snd (fold_range (globalMinHeight st, globalMaxHeight st)
                                             (populate new_R16Writer)),
                   marks := marks st @ [tile_ok env]\<rparr>)"
  using assms by (simp add: export_tile_def tile_ok_def fold_range_def Let_def)

text \<open>
  Claim C2. A tile whose export throws is marked as failed and, unless cancellation was
  asserted before the tile was reached, the loop goes on with the next tile, the rest of
  the job state as it was: that is the first conjunct, for any position in any job. In particular, for three tiles of which the second fails (heightmaps
  enabled, no cancellation, the files writable), the export-path log has the lines of tiles
  1 and 3 only, the marks are success, failure, success, the metadata counts two tiles and
  carries the range folded from the writers of tiles 1 and 3, and pass 2 writes those two
  writers, each with that global range.
\<close>

theorem exportSelectedMap_tile_failure_isolated:
  assumes "adt_export env t2 = Export_failed msg"
  shows "(\<not> cancelled_pass1 env i \<longrightarrow>
          pass1_loop env i (t2 # rest) st
            = pass1_loop env (Suc i) rest (st\<lparr>marks := marks st @ [tile_failed env msg]\<rparr>))
     \<and> (mapsExportHeightmap env \<and> exportPaths_open env \<and> manifest_ok env
          \<and> (\<forall>i. \<not> cancelled_pass1 env i) \<and> (\<forall>i. \<not> cancelled_pass2 env i)
          \<and> adt_export env t1 = Exported o1 p1 \<and> adt_export env t3 = Exported o3 p3 \<longrightarrow>
         exportSelectedMap env [t1, t2, t3] =
           Some \<lparr>heightmaps =
                    files (write_heightmap env
                             (fst (global_range [p1 new_R16Writer, p3 new_R16Writer]))
                             (snd (global_range [p1 new_R16Writer, p3 new_R16Writer])) 1
                             (p3 new_R16Writer)
                          (write_heightmap env
                             (fst (global_range [p1 new_R16Writer, p3 new_R16Writer]))
                             (snd (global_range [p1 new_R16Writer, p3 new_R16Writer])) 0
                             (p1 new_R16Writer) \<lparr>files = [], marks2 = []\<rparr>)),
                 manifest =
                    Some \<lparr>tile_count = 2,
                          min_height = fst (global_range [p1 new_R16Writer, p3 new_R16Writer]),
                          max_height = snd (global_range [p1 new_R16Writer, p3 new_R16Writer]),
                          range = js_sub (snd (global_range [p1 new_R16Writer, p3 new_R16Writer]))
                                         (fst (global_range [p1 new_R16Writer, p3 new_R16Writer]))\<rparr>,
                 exportPaths = [out_type o1 @ '':'' @ out_path o1, out_type o3 @ '':'' @ out_path o3],
                 helper_marks =
                    [tile_ok env, tile_failed env msg, tile_ok env]
                    @ marks2 (write_heightmap env
                             (fst (global_range [p1 new_R16Writer, p3 new_R16Writer]))
                             (snd (global_range [p1 new_R16Writer, p3 new_R16Writer])) 1
                             (p3 new_R16Writer)
                          (write_heightmap env
                             (fst (global_range [p1 new_R16Writer, p3 new_R16Writer]))
                             (snd (global_range [p1 new_R16Writer, p3 new_R16Writer])) 0
                             (p1 new_R16Writer) \<lparr>files = [], marks2 = []\<rparr>))\<rparr>)"
proof -
  have first: "pass1_loop env i (t2 # rest) st
           = pass1_loop env (Suc i) rest (st\<lparr>marks := marks st @ [tile_failed env msg]\<rparr>)"
    if "\<not> cancelled_pass1 env i"
    by (rule pass1_failed_tile [OF that assms])
  have three: "exportSelectedMap env [t1, t2, t3] = Some \<lparr>heightmaps =
                    files (write_heightmap env
                             (fst (global_range [p1 new_R16Writer, p3 new_R16Writer]))
                             (snd (global_range [p1 new_R16Writer, p3 new_R16Writer])) 1
                             (p3 new_R16Writer)
                          (write_heightmap env
                             (fst (global_range [p1 new_R16Writer, p3 new_R16Writer]))
                             (snd (global_range [p1 new_R16Writer, p3 new_R16Writer])) 0
                             (p1 new_R16Writer) \<lparr>files = [], marks2 = []\<rparr>)),
                 manifest =
                    Some \<lparr>tile_count = 2,
                          min_height = fst (global_range [p1 new_R16Writer, p3 new_R16Writer]),
                          max_height = snd (global_range [p1 new_R16Writer, p3 new_R16Writer]),
                          range = js_sub (snd (global_range [p1 new_R16Writer, p3 new_R16Writer]))
                                         (fst (global_range [p1 new_R16Writer, p3 new_R16Writer]))\<rparr>,
                 exportPaths = [out_type o1 @ '':'' @ out_path o1, out_type o3 @ '':'' @ out_path o3],
                 helper_marks =
                    [tile_ok env, tile_failed env msg, tile_ok env]
                    @ marks2 (write_heightmap env
                             (fst (global_range [p1 new_R16Writer, p3 new_R16Writer]))
                             (snd (global_range [p1 new_R16Writer, p3 new_R16Writer])) 1
                             (p3 new_R16Writer)
                          (write_heightmap env
                             (fst (global_range [p1 new_R16Writer, p3 new_R16Writer]))
                             (snd (global_range [p1 new_R16Writer, p3 new_R16Writer])) 0
                             (p1 new_R16Writer) \<lparr>files = [], marks2 = []\<rparr>))\<rparr>"
    if h: "mapsExportHeightmap env" "exportPaths_open env" "manifest_ok env"
      "\<forall>i. \<not> cancelled_pass2 env i"
      "adt_export env t1 = Exported o1 p1" "adt_export env t3 = Exported o3 p3"
      and nc1: "\<forall>i. \<not> cancelled_pass1 env i"
  proof -
    have nc: "\<not> cancelled_pass1 env j" for j using nc1 by simp
    let ?w1 = "p1 new_R16Writer" and ?w3 = "p3 new_R16Writer"
    define st where "st = pass1_loop env 0 [t1, t2, t3] initial_job"
    have e1: "export_tile env j t1 s
                = s\<lparr>adtExports := adtExports s @ [(o1, j)],
                    r16Writers := r16Writers s @ [?w1],
                    globalMinHeight := fst (fold_range (globalMinHeight s, globalMaxHeight s) ?w1),
                    globalMaxHeight := snd (fold_range (globalMinHeight s, globalMaxHeight s) ?w1),
                    marks := marks s @ [tile_ok env]\<rparr>" for j s
      using h(1,5) by (simp add: export_tile_def tile_ok_def fold_range_def Let_def)
    have e3: "export_tile env j t3 s
                = s\<lparr>adtExports := adtExports s @ [(o3, j)],
                    r16Writers := r16Writers s @ [?w3],
                    globalMinHeight := fst (fold_range (globalMinHeight s, globalMaxHeight s) ?w3),
                    globalMaxHeight := snd (fold_range (globalMinHeight s, globalMaxHeight s) ?w3),
                    marks := marks s @ [tile_ok env]\<rparr>" for j s
      using h(1,6) by (simp add: export_tile_def tile_ok_def fold_range_def Let_def)
    have e2: "export_tile env j t2 s = s\<lparr>marks := marks s @ [tile_failed env msg]\<rparr>" for j s
      using assms by (simp add: export_tile_def tile_failed_def)
    have st: "st = \<lparr>r16Writers = [?w1, ?w3], adtExports = [(o1, 0), (o3, 2)],
                    globalMinHeight = fst (global_range [?w1, ?w3]),
                    globalMaxHeight = snd (global_range [?w1, ?w3]),
                    marks = [tile_ok env, tile_failed env msg, tile_ok env]\<rparr>"
      unfolding st_def
      by (simp add: nc e1 e2 e3 initial_job_def global_range_def numeral_2_eq_2)
    have nc2: "\<not> cancelled_pass2 env j" for j using h(4) by simp
    have p2: "pass2_loop env gmin gmax 0 [?w1, ?w3] \<lparr>files = [], marks2 = []\<rparr>
                = write_heightmap env gmin gmax 1 ?w3
                    (write_heightmap env gmin gmax 0 ?w1 \<lparr>files = [], marks2 = []\<rparr>)"
      for gmin gmax
      using nc2 by simp
    have run: "pass1_loop env 0 [t1, t2, t3] initial_job
                 = \<lparr>r16Writers = [?w1, ?w3], adtExports = [(o1, 0), (o3, 2)],
                    globalMinHeight = fst (global_range [?w1, ?w3]),
                    globalMaxHeight = snd (global_range [?w1, ?w3]),
                    marks = [tile_ok env, tile_failed env msg, tile_ok env]\<rparr>"
      using st by (simp only: st_def)
    show ?thesis
      unfolding exportSelectedMap_def Let_def run
      by (simp add: p2 h(2,3) del: pass2_loop.simps)
  qed
  show ?thesis using first three by blast
qed

theorem exportSelectedMap_tile_failure_isolated_witness:
  "(\<forall>i. \<not> cancelled_pass1 three_tiles_job i)
   \<and> adt_export three_tiles_job 11 = Export_failed ''missing tile data''
   \<and> map_option exportPaths (exportSelectedMap three_tiles_job [10, 11, 12])
        = Some [''ADT:adt_0_10.obj'', ''ADT:adt_0_12.obj'']
   \<and> map_option manifest (exportSelectedMap three_tiles_job [10, 11, 12])
        = Some (Some \<lparr>tile_count = 2, min_height = Fin 1, max_height = Fin 9, range = Fin 8\<rparr>)
   \<and> map_option (map mark_state \<circ> helper_marks) (exportSelectedMap three_tiles_job [10, 11, 12])
        = Some [True, False, True]
   \<and> map_option heightmaps (exportSelectedMap three_tiles_job [10, 11, 12])
        = Some [(Some ''adt_0_10.r16'', [0, 128, 255, 159, 255, 223, 255, 255]),
                (Some ''adt_0_12.r16'', [0, 0, 0, 32, 0, 64, 255, 191])]"
proof -
  have r: "replicate 8 (0 :: byte) = [0, 0, 0, 0, 0, 0, 0, 0]"
    by (simp add: eval_nat_numeral)
  have a: "alloc_buffer [h0, h1, h2, h3] = Inr (replicate 8 0)" for h0 h1 h2 h3
    using alloc_buffer_square [of "[h0, h1, h2, h3]" 2] by simp
  note d = to_double_div_pow2 [of 1 1, simplified]
    to_double_div_pow2 [of 5 3, simplified]
    to_double_div_pow2 [of 7 3, simplified]
    to_double_div_pow2 [of 65535 1, simplified]
    to_double_div_pow2 [of 327675 3, simplified]
    to_double_div_pow2 [of 458745 3, simplified]
    to_double_div_pow2 [of 1 3, simplified]
    to_double_div_pow2 [of 1 2, simplified]
    to_double_div_pow2 [of 3 2, simplified]
    to_double_div_pow2 [of 65535 3, simplified]
    to_double_div_pow2 [of 65535 2, simplified]
    to_double_div_pow2 [of 196605 2, simplified]
  have g: "global_range [three_tiles_writer 10 new_R16Writer, three_tiles_writer 12 new_R16Writer]
             = (Fin 1, Fin 9)"
    by (simp add: global_range_def fold_range_def three_tiles_writer_def new_R16Writer_def)
  have w1: "write_heightmap three_tiles_job (Fin 1) (Fin 9) 0 (three_tiles_writer 10 new_R16Writer)
              \<lparr>files = [], marks2 = []\<rparr>
            = \<lparr>files = [(Some ''adt_0_10.r16'', [0, 128, 255, 159, 255, 223, 255, 255])], marks2 = []\<rparr>"
    by (simp add: write_heightmap_def three_tiles_job_def three_tiles_writer_def new_R16Writer_def
        write_r16_def a writeUInt16LE_def r16Value_def r d)
  have w3: "write_heightmap three_tiles_job (Fin 1) (Fin 9) (Suc 0) (three_tiles_writer 12 new_R16Writer) st
            = st\<lparr>files := files st @ [(Some ''adt_0_12.r16'', [0, 0, 0, 32, 0, 64, 255, 191])]\<rparr>" for st
    by (simp add: write_heightmap_def three_tiles_job_def three_tiles_writer_def new_R16Writer_def
        write_r16_def a writeUInt16LE_def r16Value_def r d)
  have e: "adt_export three_tiles_job 10
             = Exported \<lparr>out_type = ''ADT'', out_path = ''adt_0_10.obj''\<rparr> (three_tiles_writer 10)"
    "adt_export three_tiles_job 12
             = Exported \<lparr>out_type = ''ADT'', out_path = ''adt_0_12.obj''\<rparr> (three_tiles_writer 12)"
    "adt_export three_tiles_job 11 = Export_failed ''missing tile data''"
    by (simp_all add: three_tiles_job_def)
  have c: "\<forall>i. \<not> cancelled_pass1 three_tiles_job i" "\<forall>i. \<not> cancelled_pass2 three_tiles_job i"
    "mapsExportHeightmap three_tiles_job" "exportPaths_open three_tiles_job"
    "manifest_ok three_tiles_job"
    by (simp_all add: three_tiles_job_def)
  show ?thesis
    using exportSelectedMap_tile_failure_isolated [OF e(3), of 0 "[]" initial_job 10
        "\<lparr>out_type = ''ADT'', out_path = ''adt_0_10.obj''\<rparr>" "three_tiles_writer 10" 12
        "\<lparr>out_type = ''ADT'', out_path = ''adt_0_12.obj''\<rparr>" "three_tiles_writer 12"]
      c e
    by (simp add: g w1 w3 tile_ok_def tile_failed_def)
qed


end
